theory Spec2Isabelle
  imports Complex_Main
begin

section \<open>Errors raised by the Python code\<close>

text \<open>
  The readout code is Python 2 (\<^verbatim>\<open>print\<close> statements, and \<^verbatim>\<open>demodulator.py\<close> has no
  \<^verbatim>\<open>from __future__ import division\<close>): \<^verbatim>\<open>/\<close> between two integers is floor division.
  Floating point numbers are embedded as exact reals and complex numbers. Every exception
  the modelled lines can raise is a value of \<open>py_error\<close>.
\<close>

datatype py_error =
    ZeroDivisionError
  | ValueError
  | IndexError
  | OverflowError
  | LinAlgError
  | AssertionError
  | NonFinite

text \<open>
  \<open>NonFinite\<close> is not an exception: it marks a result that is \<^verbatim>\<open>inf\<close> or \<^verbatim>\<open>nan\<close> in the
  source (a numpy float division by zero only warns), which the real-number embedding
  cannot carry.
\<close>

section \<open>demodulator.py: offset frequency and packet-phase period\<close>

text \<open>
  \<^verbatim>\<open>tone_offset_frequency\<close> for one channel: \<^verbatim>\<open>nfft * (k / float(ns)) - m\<close>. The division
  is a float division, which raises for \<^verbatim>\<open>ns = 0\<close>.
\<close>

definition tone_offset_frequency :: "int \<Rightarrow> int \<Rightarrow> int \<Rightarrow> int \<Rightarrow> py_error + real" where
  "tone_offset_frequency tone_bin tone_num_samples fft_bin nfft =
     (let k = tone_bin; m = fft_bin; ns = tone_num_samples
      in if ns = 0 then Inl ZeroDivisionError
         else Inr (of_int nfft * (of_int k / of_int ns) - of_int m))"

text \<open>
  The offset computed inline by \<^verbatim>\<open>RoachHeterodyne.demodulate_data\<close> (heterodyne.py):
  \<^verbatim>\<open>foffs = (k * nfft - m * ns) / float(ns)\<close>.
\<close>

definition heterodyne_foffs :: "int \<Rightarrow> int \<Rightarrow> int \<Rightarrow> int \<Rightarrow> py_error + real" where
  "heterodyne_foffs k ns m nfft =
     (if ns = 0 then Inl ZeroDivisionError
      else Inr (of_int (k * nfft - m * ns) / of_int ns))"

text \<open>\<^verbatim>\<open>np.max\<close> of a one-dimensional array; the empty array has no maximum (ValueError).\<close>

fun np_max :: "real list \<Rightarrow> py_error + real" where
  "np_max [] = Inl ValueError"
| "np_max (x # xs) = Inr (foldl max x xs)"

text \<open>\<^verbatim>\<open>int(x)\<close> of a finite float: truncation toward zero.\<close>

definition py_int :: "real \<Rightarrow> int" where
  "py_int x = (if 0 \<le> x then \<lfloor>x\<rfloor> else \<lceil>x\<rceil>)"

text \<open>
  \<^verbatim>\<open>get_foffs_period\<close>: \<^verbatim>\<open>mask = foffs != 0; return int(np.max(1/foffs[mask]))\<close>.
\<close>

definition get_foffs_period :: "real list \<Rightarrow> py_error + int" where
  "get_foffs_period foffs =
     (let masked = filter (\<lambda>f. f \<noteq> 0) foffs
      in case np_max (map (\<lambda>f. 1 / f) masked) of
           Inl e \<Rightarrow> Inl e
         | Inr p \<Rightarrow> Inr (py_int p))"

text \<open>
  The truncation step of \<^verbatim>\<open>Demodulator.demodulate_stream\<close>, on the rows of the buffer:
  \<^verbatim>\<open>
  nt = get_foffs_period(foffs)
  if (data.shape[0] % nt):
      data = data[: nt*(data.shape[0]//nt),:]
  \<close>
  \<^verbatim>\<open>%\<close> and \<^verbatim>\<open>//\<close> on Python integers floor, as \<open>mod\<close> and \<open>div\<close> on \<open>int\<close> do, and
  raise for a zero divisor. The slice bound is never negative here, so the slice is a
  prefix.
\<close>

definition demodulate_stream_truncate :: "'a list \<Rightarrow> real list \<Rightarrow> py_error + 'a list" where
  "demodulate_stream_truncate data foffs =
     (case get_foffs_period foffs of
        Inl e \<Rightarrow> Inl e
      | Inr nt \<Rightarrow>
          if nt = 0 then Inl ZeroDivisionError
          else if int (length data) mod nt \<noteq> 0
               then Inr (take (nat (nt * (int (length data) div nt))) data)
               else Inr data)"

section \<open>demodulator.py: packet phase\<close>

text \<open>
  \<^verbatim>\<open>int(np.log2(c))\<close>: \<^verbatim>\<open>np.log2(0)\<close> is \<^verbatim>\<open>-inf\<close> and \<^verbatim>\<open>int\<close> of it raises OverflowError;
  the logarithm of a negative number is \<^verbatim>\<open>nan\<close> and \<^verbatim>\<open>int\<close> of it raises ValueError.
\<close>

definition int_log2 :: "int \<Rightarrow> py_error + int" where
  "int_log2 c =
     (if c = 0 then Inl OverflowError
      else if c < 0 then Inl ValueError
      else Inr (py_int (log 2 (of_int c))))"

text \<open>
  The integer bookkeeping of \<^verbatim>\<open>packet_phase\<close> (all but its last line), on Python integers:
  \<^verbatim>\<open>
  packet_bins = 1024
  packet_counts = nfft * packet_bins
  chan_counts = packet_counts / nchan
  shift = int(np.log2(chan_counts)) - 1
  modn = ns / chan_counts
  if modn == 0:
      modn = 1
  multy = ns / nfft
  seq_no = seq_no >> shift
  seq_no %= modn
  \<close>
  The result is the reduced sequence number, \<^verbatim>\<open>multy\<close> and \<^verbatim>\<open>modn\<close>. A negative shift count
  raises ValueError.
\<close>

definition packet_phase_counts :: "int \<Rightarrow> int \<Rightarrow> int \<Rightarrow> int \<Rightarrow> py_error + (int \<times> int \<times> int)" where
  "packet_phase_counts seq_no nchan nfft ns =
     (let packet_bins = 1024;
          packet_counts = nfft * packet_bins
      in if nchan = 0 then Inl ZeroDivisionError
         else
           let chan_counts = packet_counts div nchan
           in case int_log2 chan_counts of
                Inl e \<Rightarrow> Inl e
              | Inr l \<Rightarrow>
                  let shift = l - 1
                  in if chan_counts = 0 then Inl ZeroDivisionError
                     else
                       let modn0 = ns div chan_counts;
                           modn = (if modn0 = 0 then 1 else modn0)
                       in if nfft = 0 then Inl ZeroDivisionError
                          else
                            let multy = ns div nfft
                            in if shift < 0 then Inl ValueError
                               else Inr ((seq_no div 2 ^ nat shift) mod modn, multy, modn))"

text \<open>
  The last line of \<^verbatim>\<open>packet_phase\<close>,
  \<^verbatim>\<open>np.exp(-1j * 2. * np.pi * seq_no * foffs * multy / modn)\<close>, for one offset frequency (as
  \<^verbatim>\<open>demodulate\<close> calls it) and broadcast over the offsets of all channels (as
  \<^verbatim>\<open>create_demod_wave\<close> calls it). The final division is a complex division.
\<close>

definition phase_factor :: "int \<Rightarrow> int \<Rightarrow> int \<Rightarrow> real \<Rightarrow> complex" where
  "phase_factor s multy modn foffs =
     exp (- \<i> * 2 * of_real pi * of_int s * of_real foffs * of_int multy / of_int modn)"


definition packet_phase_channels ::
    "int \<Rightarrow> real list \<Rightarrow> int \<Rightarrow> int \<Rightarrow> int \<Rightarrow> py_error + complex list" where
  "packet_phase_channels seq_no foffs nchan nfft ns =
     (case packet_phase_counts seq_no nchan nfft ns of
        Inl e \<Rightarrow> Inl e
      | Inr (s, multy, modn) \<Rightarrow> Inr (map (phase_factor s multy modn) foffs))"

section \<open>demodulator.py: the PFB response lookup and the demodulator\<close>

text \<open>
  \<^verbatim>\<open>np.interp(x, xp, fp)\<close> with its default edge values, for a table \<^verbatim>\<open>xp\<close> of increasing
  sample points: left of the table the first value, right of it the last value, and in
  between the linear interpolation on the interval \<^verbatim>\<open>xp[j] <= x < xp[j+1]\<close>. An empty
  table or tables of different lengths raise ValueError.
\<close>

fun interp_inside :: "real \<Rightarrow> (real \<times> real) list \<Rightarrow> real" where
  "interp_inside x ((x0, y0) # (x1, y1) # rest) =
     (if x < x1 then (y1 - y0) / (x1 - x0) * (x - x0) + y0
      else interp_inside x ((x1, y1) # rest))"
| "interp_inside x [(x0, y0)] = y0"
| "interp_inside x [] = 0"

definition np_interp :: "real \<Rightarrow> real list \<Rightarrow> real list \<Rightarrow> py_error + real" where
  "np_interp x xp fp =
     (if xp = [] then Inl ValueError
      else if length fp \<noteq> length xp then Inl ValueError
      else if last xp < x then Inr (last fp)
      else if x < hd xp then Inr (hd fp)
      else Inr (interp_inside x (zip xp fp)))"

text \<open>
  The fields of \<^verbatim>\<open>Demodulator\<close> that \<^verbatim>\<open>compute_pfb_response\<close> and \<^verbatim>\<open>demodulate\<close> read. The
  response table \<^verbatim>\<open>(_window_frequency, _window_response)\<close> is computed once by the
  constructor.
\<close>

record demodulator =
  self_nfft :: int
  self_hardware_delay_samples :: real
  self_window_frequency :: "real list"
  self_window_response :: "real list"

text \<open>
  \<^verbatim>\<open>compute_pfb_response\<close>: \<^verbatim>\<open>1/np.interp(normalized_frequency, self._window_frequency,
  self._window_response)\<close>. A zero response gives \<^verbatim>\<open>inf\<close>.
\<close>

definition compute_pfb_response :: "demodulator \<Rightarrow> real \<Rightarrow> py_error + real" where
  "compute_pfb_response d normalized_frequency =
     (case np_interp normalized_frequency (self_window_frequency d) (self_window_response d) of
        Inl e \<Rightarrow> Inl e
      | Inr r \<Rightarrow> if r = 0 then Inl NonFinite else Inr (1 / r))"




text \<open>
  The period the specification describes: the smallest positive reciprocal offset,
  rounded to the nearest integer. Written from the specification's words, for comparison
  with \<open>get_foffs_period\<close>.
\<close>

definition spec_smallest_positive_period :: "real list \<Rightarrow> int option" where
  "spec_smallest_positive_period foffs =
     (let periods = filter (\<lambda>p. 0 < p) (map (\<lambda>f. 1 / f) (filter (\<lambda>f. f \<noteq> 0) foffs))
      in case periods of
           [] \<Rightarrow> None
         | p # ps \<Rightarrow> Some (round (foldl min p ps)))"

text \<open>
  The other reading of the same words: the reciprocal of the smallest positive offset,
  rounded to the nearest integer.
\<close>

definition spec_period_of_smallest_offset :: "real list \<Rightarrow> int option" where
  "spec_period_of_smallest_offset foffs =
     (case filter (\<lambda>f. 0 < f) foffs of
        [] \<Rightarrow> None
      | f # fs \<Rightarrow> Some (round (1 / foldl min f fs)))"

section \<open>iqnoise.py: the PCA noise decomposition\<close>

text \<open>
  Two-by-two arrays, with \<open>Mat2 a b c d\<close> for \<^verbatim>\<open>[[a, b], [c, d]]\<close>; \<open>dot2\<close> is \<^verbatim>\<open>np.dot\<close>
  and \<open>inv2\<close> is \<^verbatim>\<open>np.linalg.inv\<close>, which raises LinAlgError for a singular matrix.
\<close>

datatype 'a mat2 = Mat2 (m00: 'a) (m01: 'a) (m10: 'a) (m11: 'a)

definition dot2 :: "complex mat2 \<Rightarrow> complex mat2 \<Rightarrow> complex mat2" where
  "dot2 p q =
     Mat2 (m00 p * m00 q + m01 p * m10 q) (m00 p * m01 q + m01 p * m11 q)
          (m10 p * m00 q + m11 p * m10 q) (m10 p * m01 q + m11 p * m11 q)"

definition det2 :: "complex mat2 \<Rightarrow> complex" where
  "det2 p = m00 p * m11 p - m01 p * m10 p"

definition inv2 :: "complex mat2 \<Rightarrow> py_error + complex mat2" where
  "inv2 p =
     (if det2 p = 0 then Inl LinAlgError
      else Inr (Mat2 (m11 p / det2 p) (- m01 p / det2 p) (- m10 p / det2 p) (m00 p / det2 p)))"

definition cmat :: "real mat2 \<Rightarrow> complex mat2" where
  "cmat p = Mat2 (of_real (m00 p)) (of_real (m01 p)) (of_real (m10 p)) (of_real (m11 p))"

text \<open>
  \<^verbatim>\<open>np.linalg.eigh\<close> is numpy's, not this repository's: the decomposer takes it as a
  parameter, a function from a real symmetric matrix to its eigenvalue pair \<^verbatim>\<open>w\<close> and
  eigenvector matrix \<^verbatim>\<open>v\<close> (column \<^verbatim>\<open>v[:, i]\<close> belongs to \<^verbatim>\<open>w[i]\<close>).
\<close>

type_synonym eigh_solver = "real mat2 \<Rightarrow> (real \<times> real) \<times> real mat2"

text \<open>\<^verbatim>\<open>np.arctan2(y, x)\<close> and \<^verbatim>\<open>np.mod(a, b)\<close> for a positive \<^verbatim>\<open>b\<close>, on exact reals.\<close>

definition np_arctan2 :: "real \<Rightarrow> real \<Rightarrow> real" where
  "np_arctan2 y x =
     (if 0 < x then arctan (y / x)
      else if x < 0 then (if 0 \<le> y then arctan (y / x) + pi else arctan (y / x) - pi)
      else if 0 < y then pi / 2
      else if y < 0 then - pi / 2
      else 0)"

definition np_mod :: "real \<Rightarrow> real \<Rightarrow> real" where
  "np_mod a b = a - b * of_int \<lfloor>a / b\<rfloor>"

text \<open>A \<^verbatim>\<open>for\<close> loop that collects one value per index and stops at the first exception.\<close>

fun py_for :: "('k \<Rightarrow> py_error + 'b) \<Rightarrow> 'k list \<Rightarrow> py_error + 'b list" where
  "py_for body [] = Inr []"
| "py_for body (k # ks) =
     (case body k of
        Inl e \<Rightarrow> Inl e
      | Inr y \<Rightarrow> (case py_for body ks of Inl e \<Rightarrow> Inl e | Inr ys \<Rightarrow> Inr (y # ys)))"

text \<open>
  The four arrays \<^verbatim>\<open>calculate_pca_noise\<close> returns; entry \<open>k\<close> of each list is column \<open>k\<close> of
  the array (\<^verbatim>\<open>S[:, k]\<close>, \<^verbatim>\<open>evals[:, k]\<close>, \<^verbatim>\<open>evects[:, :, k]\<close>, \<^verbatim>\<open>angles[:, k]\<close>).
\<close>

record pca_result =
  S :: "(real \<times> real) list"
  evals :: "(real \<times> real) list"
  evects :: "complex mat2 list"
  angles :: "(real \<times> real) list"

text \<open>
  The eigenproblem loop of \<^verbatim>\<open>calculate_pca_noise\<close>, for bin \<open>k\<close>:
  \<^verbatim>\<open>
  m = np.array([[pii[k], np.real(piq[k])],
                [np.conj(np.real(piq[k])), pqq[k]]])
  w, v = np.linalg.eigh(m)
  \<close>
  An index beyond \<^verbatim>\<open>piq\<close> or \<^verbatim>\<open>pqq\<close> raises IndexError.
\<close>

definition eig_bin ::
    "eigh_solver \<Rightarrow> real list \<Rightarrow> real list \<Rightarrow> complex list \<Rightarrow> nat
      \<Rightarrow> py_error + ((real \<times> real) \<times> real mat2)" where
  "eig_bin eigh pii pqq piq k =
     (if length piq \<le> k \<or> length pqq \<le> k then Inl IndexError
      else Inr (eigh (Mat2 (pii ! k) (Re (piq ! k)) (Re (cnj (of_real (Re (piq ! k))))) (pqq ! k))))"

text \<open>The real symmetric matrix that loop hands to the solver, with \<^verbatim>\<open>conj\<close> of a real dropped.\<close>

definition sym_matrix :: "real list \<Rightarrow> real list \<Rightarrow> complex list \<Rightarrow> nat \<Rightarrow> real mat2" where
  "sym_matrix pii pqq piq k = Mat2 (pii ! k) (Re (piq ! k)) (Re (piq ! k)) (pqq ! k)"

text \<open>
  The projection loop, for bin \<open>k\<close>; the assignment into the real array \<^verbatim>\<open>S\<close> keeps the
  real part:
  \<^verbatim>\<open>
  m = np.array([[pii[k], piq[k]],
                [np.conj(piq[k]), pqq[k]]])
  ss = np.dot(np.dot(invv, m), v)
  S[0, k] = ss[0, 0]
  S[1, k] = ss[1, 1]
  \<close>
\<close>

definition full_matrix :: "real list \<Rightarrow> real list \<Rightarrow> complex list \<Rightarrow> nat \<Rightarrow> complex mat2" where
  "full_matrix pii pqq piq k =
     Mat2 (of_real (pii ! k)) (piq ! k) (cnj (piq ! k)) (of_real (pqq ! k))"

definition project_bin ::
    "complex mat2 \<Rightarrow> complex mat2 \<Rightarrow> real list \<Rightarrow> real list \<Rightarrow> complex list \<Rightarrow> nat
      \<Rightarrow> real \<times> real" where
  "project_bin invv v pii pqq piq k =
     (let m = full_matrix pii pqq piq k;
          ss = dot2 (dot2 invv m) v
      in (Re (m00 ss), Re (m11 ss)))"

definition angle_pair :: "complex mat2 \<Rightarrow> real \<times> real" where
  "angle_pair v =
     (np_mod (np_arctan2 (Re (m00 v)) (Re (m10 v))) pi,
      np_mod (np_arctan2 (Re (m01 v)) (Re (m11 v))) pi)"

text \<open>
  \<^verbatim>\<open>calculate_pca_noise(pii, pqq, piq)\<close> with real \<^verbatim>\<open>pii\<close>, \<^verbatim>\<open>pqq\<close> and complex \<^verbatim>\<open>piq\<close>.
  \<^verbatim>\<open>evects[:, :, 0]\<close> raises IndexError when there is no bin.
\<close>

definition calculate_pca_noise ::
    "eigh_solver \<Rightarrow> real list \<Rightarrow> real list \<Rightarrow> complex list \<Rightarrow> py_error + pca_result" where
  "calculate_pca_noise eigh pii pqq piq =
     (let nf = length pii
      in case py_for (eig_bin eigh pii pqq piq) [0 ..< nf] of
           Inl e \<Rightarrow> Inl e
         | Inr wv \<Rightarrow>
             let evals' = map fst wv;
                 evects' = map (\<lambda>r. cmat (snd r)) wv;
                 angles' = map angle_pair evects'
             in (case evects' of
                   [] \<Rightarrow> Inl IndexError
                 | v # _ \<Rightarrow>
                     (case inv2 v of
                        Inl e \<Rightarrow> Inl e
                      | Inr invv \<Rightarrow>
                          Inr \<lparr>S = map (project_bin invv v pii pqq piq) [0 ..< nf],
                               evals = evals', evects = evects', angles = angles'\<rparr>)))"

text \<open>
  What \<^verbatim>\<open>np.linalg.eigh\<close> promises for a real symmetric matrix, in exact arithmetic:
  ascending eigenvalues, each column an eigenvector of its eigenvalue, and orthonormal
  columns.
\<close>

definition eigh_spec :: "eigh_solver \<Rightarrow> bool" where
  "eigh_spec eigh =
     (\<forall>a b d. case eigh (Mat2 a b b d) of
        ((w0, w1), v) \<Rightarrow>
          w0 \<le> w1
          \<and> a * m00 v + b * m10 v = w0 * m00 v \<and> b * m00 v + d * m10 v = w0 * m10 v
          \<and> a * m01 v + b * m11 v = w1 * m01 v \<and> b * m01 v + d * m11 v = w1 * m11 v
          \<and> (m00 v)\<^sup>2 + (m10 v)\<^sup>2 = 1 \<and> (m01 v)\<^sup>2 + (m11 v)\<^sup>2 = 1
          \<and> m00 v * m01 v + m10 v * m11 v = 0)"

text \<open>
  An exact solver in closed form: the eigenvalues (a + d)/2 - r and (a + d)/2 + r with
  r the root of ((a - d)/2)^2 + b^2, and the normalised eigenvectors (b, w - a). Like
  \<^verbatim>\<open>eigh\<close> it reads the lower triangle.
\<close>

definition eigh_exact :: eigh_solver where
  "eigh_exact m =
     (let a = m00 m; b = m10 m; d = m11 m
      in if b = 0 then (if a \<le> d then ((a, d), Mat2 1 0 0 1) else ((d, a), Mat2 0 1 1 0))
         else
           let r = sqrt (((a - d) / 2)\<^sup>2 + b\<^sup>2);
               w0 = (a + d) / 2 - r;
               w1 = (a + d) / 2 + r;
               n0 = sqrt (b\<^sup>2 + (w0 - a)\<^sup>2);
               n1 = sqrt (b\<^sup>2 + (w1 - a)\<^sup>2)
           in ((w0, w1), Mat2 (b / n0) (b / n1) ((w0 - a) / n0) ((w1 - a) / n1)))"

text \<open>
  A solver with a rounding error: the exact one with its smallest eigenvalue moved down
  by \<open>delta\<close>.
\<close>

definition eigh_rounded :: "real \<Rightarrow> eigh_solver" where
  "eigh_rounded delta m = (case eigh_exact m of ((w0, w1), v) \<Rightarrow> ((w0 - delta, w1), v))"

text \<open>
  A pair of real eigenvalues and a complex matrix are an eigendecomposition of a complex
  matrix \<open>m\<close>: m v = v diag(w), and the columns of v are orthonormal.
\<close>

definition ctranspose2 :: "complex mat2 \<Rightarrow> complex mat2" where
  "ctranspose2 p = Mat2 (cnj (m00 p)) (cnj (m10 p)) (cnj (m01 p)) (cnj (m11 p))"

definition is_eigendecomposition :: "complex mat2 \<Rightarrow> real \<times> real \<Rightarrow> complex mat2 \<Rightarrow> bool" where
  "is_eigendecomposition m w v =
     (dot2 m v = dot2 v (Mat2 (of_real (fst w)) 0 0 (of_real (snd w)))
      \<and> dot2 (ctranspose2 v) v = Mat2 1 0 0 1)"

text \<open>The triple forms a positive-semidefinite Hermitian matrix in bin \<open>k\<close>.\<close>

definition psd_bin :: "real list \<Rightarrow> real list \<Rightarrow> complex list \<Rightarrow> nat \<Rightarrow> bool" where
  "psd_bin pii pqq piq k =
     (0 \<le> pii ! k \<and> 0 \<le> pqq ! k \<and> (cmod (piq ! k))\<^sup>2 \<le> pii ! k * pqq ! k)"

section \<open>iqnoise.py: the shared spectral estimator\<close>

text \<open>
  \<^verbatim>\<open>np.fft.fft(a, n)\<close>: the input is cropped or zero-padded to \<open>n\<close> points and transformed;
  \<open>n = 0\<close> raises ValueError.
\<close>

definition np_fft :: "complex list \<Rightarrow> nat \<Rightarrow> py_error + complex list" where
  "np_fft a n =
     (if n = 0 then Inl ValueError
      else
        let b = take n a @ replicate (n - length a) 0
        in Inr (map (\<lambda>k. \<Sum>j < n. b ! j * exp (- 2 * of_real pi * \<i> * of_nat k * of_nat j / of_nat n))
                    [0 ..< n]))"

text \<open>The product of two one-dimensional arrays, with numpy's broadcasting of length one.\<close>

definition np_mul :: "real list \<Rightarrow> real list \<Rightarrow> py_error + real list" where
  "np_mul a b =
     (if length a = length b then Inr (map2 (*) a b)
      else if length a = 1 then Inr (map (\<lambda>v. hd a * v) b)
      else if length b = 1 then Inr (map (\<lambda>v. v * hd b) a)
      else Inl ValueError)"

text \<open>
  \<^verbatim>\<open>window\<close> is either an iterable of values or a callable applied to \<^verbatim>\<open>np.ones((NFFT,))\<close>:
  \<^verbatim>\<open>
  if cbook.iterable(window):
      assert (len(window) == NFFT)
      windowVals = window
  else:
      windowVals = window(np.ones((NFFT,), x.dtype))
  \<close>
\<close>

datatype window_arg = WindowValues "real list" | WindowFunction "real list \<Rightarrow> real list"

definition window_values :: "window_arg \<Rightarrow> nat \<Rightarrow> py_error + real list" where
  "window_values window NFFT =
     (case window of
        WindowValues w \<Rightarrow> if length w = NFFT then Inr w else Inl AssertionError
      | WindowFunction f \<Rightarrow> Inr (f (replicate NFFT 1)))"

text \<open>
  \<^verbatim>\<open>ind = np.arange(0, len(x) - NFFT + 1, step)\<close>, for an array at least \<^verbatim>\<open>NFFT\<close> long: a zero
  step raises, a negative step gives no segment.
\<close>

definition segment_starts :: "nat \<Rightarrow> nat \<Rightarrow> int \<Rightarrow> py_error + nat list" where
  "segment_starts len NFFT step =
     (if step = 0 then Inl ZeroDivisionError
      else if step < 0 then Inr []
      else Inr (map (\<lambda>i. i * nat step) [0 ..< (len - NFFT) div nat step + 1]))"

text \<open>
  One signal's part of the loop body:
  \<^verbatim>\<open>
  thisX = x[ind[i]:ind[i] + NFFT]
  thisX = windowVals * detrend(thisX)
  fx = np.fft.fft(thisX, n=pad_to)
  \<close>
\<close>

definition segment_fft ::
    "(real list \<Rightarrow> real list) \<Rightarrow> real list \<Rightarrow> nat \<Rightarrow> nat \<Rightarrow> real list \<Rightarrow> nat
      \<Rightarrow> py_error + complex list" where
  "segment_fft detrend windowVals NFFT pad_to sig start =
     (case np_mul windowVals (detrend (take NFFT (drop start sig))) of
        Inl e \<Rightarrow> Inl e
      | Inr this \<Rightarrow> np_fft (map of_real this) pad_to)"

definition segment_pair ::
    "(real list \<Rightarrow> real list) \<Rightarrow> real list \<Rightarrow> nat \<Rightarrow> nat \<Rightarrow> nat \<Rightarrow> real list \<Rightarrow> real list
      \<Rightarrow> nat \<Rightarrow> py_error + (complex list \<times> complex list)" where
  "segment_pair detrend windowVals NFFT pad_to numFreqs x y start =
     (case segment_fft detrend windowVals NFFT pad_to x start of
        Inl e \<Rightarrow> Inl e
      | Inr fx \<Rightarrow>
          (case segment_fft detrend windowVals NFFT pad_to y start of
             Inl e \<Rightarrow> Inl e
           | Inr fy \<Rightarrow> Inr (take numFreqs fx, take numFreqs fy)))"

text \<open>
  The arrays are lists of rows, one row per frequency and one entry per segment. The
  three scaling passes:
  \<^verbatim>\<open>
  Pxy /= (np.abs(windowVals) ** 2).sum()
  Pxy[1:-1] *= scaling_factor
  if scale_by_freq:
      Pxy /= Fs
  \<close>
\<close>

definition div_all :: "real \<Rightarrow> ('a::real_vector) list list \<Rightarrow> 'a list list" where
  "div_all c rows = map (map (\<lambda>v. v /\<^sub>R c)) rows"

definition scale_inner :: "real \<Rightarrow> ('a::real_vector) list list \<Rightarrow> 'a list list" where
  "scale_inner c rows =
     map (\<lambda>(f, row). if 1 \<le> f \<and> f + 1 < length rows then map (\<lambda>v. c *\<^sub>R v) row else row)
         (zip [0 ..< length rows] rows)"

definition scale_rows :: "real \<Rightarrow> real \<Rightarrow> bool \<Rightarrow> real \<Rightarrow> ('a::real_vector) list list \<Rightarrow> 'a list list" where
  "scale_rows wsum scaling_factor scale_by_freq Fs rows =
     (let rows1 = div_all wsum rows;
          rows2 = scale_inner scaling_factor rows1
      in if scale_by_freq then div_all Fs rows2 else rows2)"

text \<open>\<^verbatim>\<open>np.concatenate((a[h:], a[:h]))\<close>, the centring of the two-sided output.\<close>

definition recentre :: "nat \<Rightarrow> 'a list \<Rightarrow> 'a list" where
  "recentre h a = drop h a @ take h a"

record spectral_result =
  Pxx :: "real list list"
  Pyy :: "real list list"
  Pxy :: "complex list list"
  freqs :: "real list"
  t_out :: "real list"

text \<open>
  \<^verbatim>\<open>full_spectral_helper\<close> from the segment loop on, for real \<^verbatim>\<open>x\<close> and \<^verbatim>\<open>y\<close> already padded,
  with \<^verbatim>\<open>numFreqs\<close>, \<^verbatim>\<open>scaling_factor\<close> and the sidedness decided. A zero window norm leaves
  \<^verbatim>\<open>inf\<close> or \<^verbatim>\<open>nan\<close> in non-empty arrays; \<^verbatim>\<open>1. / Fs\<close> and \<^verbatim>\<open>float(Fs) / pad_to\<close> raise for a
  zero divisor.
\<close>

definition spectral_core ::
    "real list \<Rightarrow> real list \<Rightarrow> nat \<Rightarrow> real \<Rightarrow> (real list \<Rightarrow> real list) \<Rightarrow> window_arg \<Rightarrow> int
      \<Rightarrow> nat \<Rightarrow> bool \<Rightarrow> nat \<Rightarrow> real \<Rightarrow> bool \<Rightarrow> py_error + spectral_result" where
  "spectral_core x y NFFT Fs detrend window noverlap pad_to scale_by_freq numFreqs
       scaling_factor twosided =
     (case window_values window NFFT of
        Inl e \<Rightarrow> Inl e
      | Inr windowVals \<Rightarrow>
         (let step = int NFFT - noverlap
          in case segment_starts (length x) NFFT step of
               Inl e \<Rightarrow> Inl e
             | Inr ind \<Rightarrow>
                (case py_for (segment_pair detrend windowVals NFFT pad_to numFreqs x y) ind of
                   Inl e \<Rightarrow> Inl e
                 | Inr ffts \<Rightarrow>
                    (let Pxy0 = map (\<lambda>f. map (\<lambda>(fx, fy). cnj (fx ! f) * fy ! f) ffts) [0 ..< numFreqs];
                         Pxx0 = map (\<lambda>f. map (\<lambda>(fx, fy). Re (cnj (fx ! f) * fx ! f)) ffts) [0 ..< numFreqs];
                         Pyy0 = map (\<lambda>f. map (\<lambda>(fx, fy). Re (cnj (fy ! f) * fy ! f)) ffts) [0 ..< numFreqs];
                         wsum = (\<Sum>w \<leftarrow> windowVals. \<bar>w\<bar>\<^sup>2);
                         Pxy1 = scale_rows wsum scaling_factor scale_by_freq Fs Pxy0;
                         Pxx1 = scale_rows wsum scaling_factor scale_by_freq Fs Pxx0;
                         Pyy1 = scale_rows wsum scaling_factor scale_by_freq Fs Pyy0
                     in if Fs = 0 then Inl ZeroDivisionError
                        else if pad_to = 0 then Inl ZeroDivisionError
                        else if wsum = 0 \<and> ind \<noteq> [] then Inl NonFinite
                        else
                          let t = map (\<lambda>i. 1 / Fs * (real i + real NFFT / 2)) ind;
                              freqs0 = map (\<lambda>k. Fs / real pad_to * real k) [0 ..< numFreqs];
                              h = numFreqs div 2
                          in if twosided
                             then Inr \<lparr>Pxx = recentre h Pxx1, Pyy = recentre h Pyy1,
                                       Pxy = recentre h Pxy1,
                                       freqs = map (\<lambda>v. v - Fs) (drop h freqs0) @ take h freqs0,
                                       t_out = t\<rparr>
                             else Inr \<lparr>Pxx = Pxx1, Pyy = Pyy1, Pxy = Pxy1,
                                       freqs = freqs0, t_out = t\<rparr>))))"

text \<open>
  \<^verbatim>\<open>full_spectral_helper\<close> for two real signals: the zero padding up to \<^verbatim>\<open>NFFT\<close>, the
  defaults of \<^verbatim>\<open>pad_to\<close> and \<^verbatim>\<open>scale_by_freq\<close>, and the choice of sides; a real \<^verbatim>\<open>x\<close> makes
  \<^verbatim>\<open>'default'\<close> one-sided. Two equal signals give the same result whether or not they are
  the same object.
\<close>

definition full_spectral_helper ::
    "real list \<Rightarrow> real list \<Rightarrow> nat \<Rightarrow> real \<Rightarrow> (real list \<Rightarrow> real list) \<Rightarrow> window_arg \<Rightarrow> int
      \<Rightarrow> nat option \<Rightarrow> string \<Rightarrow> bool option \<Rightarrow> py_error + spectral_result" where
  "full_spectral_helper x y NFFT Fs detrend window noverlap pad_to sides scale_by_freq =
     (let x = (if length x < NFFT then x @ replicate (NFFT - length x) 0 else x);
          y = (if length y < NFFT then y @ replicate (NFFT - length y) 0 else y);
          pad_to = (case pad_to of None \<Rightarrow> NFFT | Some p \<Rightarrow> p);
          scale_by_freq = (case scale_by_freq of None \<Rightarrow> True | Some b \<Rightarrow> b)
      in if sides = ''twosided''
         then spectral_core x y NFFT Fs detrend window noverlap pad_to scale_by_freq pad_to 1 True
         else if sides = ''default'' \<or> sides = ''onesided''
         then spectral_core x y NFFT Fs detrend window noverlap pad_to scale_by_freq
                (pad_to div 2 + 1) 2 False
         else Inl ValueError)"

text \<open>
  \<^verbatim>\<open>a.mean(1)\<close>: the mean of every row; the mean of an empty row is \<^verbatim>\<open>nan\<close>. \<^verbatim>\<open>pca_noise\<close>
  averages the three arrays this way:
  \<^verbatim>\<open>
  pii = pii.mean(1)
  pqq = pqq.mean(1)
  piq = piq.mean(1)
  \<close>
\<close>

definition np_mean :: "('a::real_vector) list \<Rightarrow> py_error + 'a" where
  "np_mean row = (if row = [] then Inl NonFinite else Inr (sum_list row /\<^sub>R real (length row)))"

definition averaged_densities ::
    "spectral_result \<Rightarrow> py_error + (real list \<times> real list \<times> complex list)" where
  "averaged_densities r =
     (case py_for np_mean (Pxx r) of
        Inl e \<Rightarrow> Inl e
      | Inr pii \<Rightarrow>
          (case py_for np_mean (Pyy r) of
             Inl e \<Rightarrow> Inl e
           | Inr pqq \<Rightarrow>
               (case py_for np_mean (Pxy r) of
                  Inl e \<Rightarrow> Inl e
                | Inr piq \<Rightarrow> Inr (pii, pqq, piq))))"

text \<open>
  A row of each of the three arrays, taken at the same frequency, comes from one list of
  per-segment transform pairs \<open>(a, b)\<close> and one positive scale \<open>c\<close>: the entries are
  \<open>c |a|\<^sup>2\<close>, \<open>c |b|\<^sup>2\<close> and \<open>c conj(a) b\<close>. \<open>arrays_ok\<close> says so of every frequency.
\<close>

definition row_triple_ok :: "real list \<times> real list \<times> complex list \<Rightarrow> bool" where
  "row_triple_ok tr =
     (case tr of (rxx, ryy, rxy) \<Rightarrow>
        \<exists>c ps. 0 < c \<and> ps \<noteq> []
          \<and> rxx = map (\<lambda>(a, b). c * (cmod a)\<^sup>2) ps
          \<and> ryy = map (\<lambda>(a, b). c * (cmod b)\<^sup>2) ps
          \<and> rxy = map (\<lambda>(a, b). c *\<^sub>R (cnj a * b)) ps)"

definition arrays_ok :: "real list list \<Rightarrow> real list list \<Rightarrow> complex list list \<Rightarrow> bool" where
  "arrays_ok A B C =
     (length A = length B \<and> length B = length C
      \<and> list_all row_triple_ok (zip A (zip B C)))"

section \<open>Properties\<close>

lemma foldl_max_ge: "(a::real) \<le> foldl max a xs"
  by (induction xs arbitrary: a) (auto intro: order_trans [OF max.cobounded1])

lemma foldl_max_ge_elem: "(y::real) \<in> set xs \<Longrightarrow> y \<le> foldl max a xs"
proof (induction xs arbitrary: a)
  case Nil
  then show ?case by simp
next
  case (Cons x xs)
  show ?case
  proof (cases "y = x")
    case True
    have "x \<le> max a x" by simp
    also have "\<dots> \<le> foldl max (max a x) xs" by (rule foldl_max_ge)
    finally show ?thesis using True by simp
  next
    case False
    with Cons.prems have "y \<in> set xs" by simp
    then show ?thesis using Cons.IH by simp
  qed
qed

lemma foldl_max_mem: "foldl max (a::real) xs \<in> set (a # xs)"
proof (induction xs arbitrary: a)
  case Nil
  then show ?case by simp
next
  case (Cons x xs)
  have m: "max a x = a \<or> max a x = x" by (simp add: max_def)
  have "foldl max (max a x) xs \<in> set (max a x # xs)" by (rule Cons.IH)
  then have "foldl max (max a x) xs = max a x \<or> foldl max (max a x) xs \<in> set xs" by simp
  then show ?case using m by auto
qed

text \<open>
  C10. For all integer tone bins k, FFT bins m, FFT lengths nfft and positive playback
  lengths ns, the offset frequency computed inline by the heterodyne demodulation,
  (k*nfft - m*ns)/ns, equals tone_offset_frequency(k, ns, m, nfft) = nfft*(k/ns) - m
  in exact arithmetic.
\<close>

theorem heterodyne_offset_agrees:
  "0 < ns \<Longrightarrow>
     heterodyne_foffs k ns m nfft = tone_offset_frequency k ns m nfft
     \<and> tone_offset_frequency k ns m nfft
         = Inr (of_int nfft * (of_int k / of_int ns) - of_int m)"
  by (simp add: heterodyne_foffs_def tone_offset_frequency_def field_simps)

theorem heterodyne_offset_agrees_witness:
  "(0::int) < 65536
   \<and> heterodyne_foffs 100 65536 25 16384 = tone_offset_frequency 100 65536 25 16384
   \<and> tone_offset_frequency 100 65536 25 16384 = Inr 0"
  using heterodyne_offset_agrees [of 65536 100 25 16384]
  by simp

text \<open>
  C9. When every per-channel offset frequency is exactly zero, the packet-phase period
  computation fails with an error instead of returning a period: the mask selects
  nothing and the maximum of the empty array raises. The batch path, which calls it
  first, fails with the same error.
\<close>

theorem all_zero_offsets_fail:
  "\<forall>f \<in> set foffs. f = 0 \<Longrightarrow>
     get_foffs_period foffs = Inl ValueError
     \<and> demodulate_stream_truncate data foffs = Inl ValueError"
proof -
  assume "\<forall>f \<in> set foffs. f = 0"
  then have "filter (\<lambda>f. f \<noteq> 0) foffs = []"
    by (simp add: filter_empty_conv)
  then show ?thesis
    by (simp add: get_foffs_period_def demodulate_stream_truncate_def)
qed

theorem all_zero_offsets_fail_witness:
  "get_foffs_period [0, 0] = Inl ValueError
   \<and> demodulate_stream_truncate [1, 2, 3 :: complex] [0, 0] = Inl ValueError"
proof -
  have zero: "\<forall>f \<in> set [0, 0 :: real]. f = 0" by simp
  show ?thesis by (rule all_zero_offsets_fail [OF zero])
qed

text \<open>
  C5, as stated, fails: the period is the largest reciprocal offset cut down to an
  integer. For the offsets 4/7 and 4/15 (reciprocals 1.75 and 3.75) the code returns 3;
  the smallest positive reciprocal period, to the nearest integer, is 2, and the period of
  the smallest positive offset, to the nearest integer, is 4.
\<close>

theorem period_not_smallest_counterexample:
  "get_foffs_period [4 / 7, 4 / 15] = Inr 3
   \<and> spec_smallest_positive_period [4 / 7, 4 / 15] = Some 2
   \<and> spec_period_of_smallest_offset [4 / 7, 4 / 15] = Some 4"
proof -
  have a: "\<lfloor>15 / 4 :: real\<rfloor> = 3" by linarith
  have b: "round (7 / 4 :: real) = 2" unfolding round_def by linarith
  have c: "round (15 / 4 :: real) = 4" unfolding round_def by linarith
  show ?thesis
    by (simp add: spec_smallest_positive_period_def spec_period_of_smallest_offset_def
        get_foffs_period_def py_int_def a b c)
qed

text \<open>
  C5, amended. When some offset is nonzero, the period is the largest reciprocal 1/f over
  the nonzero offsets f, truncated toward zero to an integer; when that period is
  positive the batch path keeps the longest prefix of the buffer whose length is a
  whole multiple of the period. For offsets [1/37, 1/37] the period is 37 and a
  100-sample buffer keeps 74 samples.
\<close>

theorem period_is_largest_reciprocal:
  "f0 \<in> set foffs \<Longrightarrow> f0 \<noteq> 0 \<Longrightarrow>
     (\<exists>p. get_foffs_period foffs = Inr (py_int p)
        \<and> (\<exists>f \<in> set foffs. f \<noteq> 0 \<and> p = 1 / f)
        \<and> (\<forall>f \<in> set foffs. f \<noteq> 0 \<longrightarrow> 1 / f \<le> p)
        \<and> (0 < py_int p \<longrightarrow>
             (\<exists>kept. demodulate_stream_truncate data foffs = Inr kept
                \<and> kept = take (nat (py_int p * (int (length data) div py_int p))) data
                \<and> int (length kept) = py_int p * (int (length data) div py_int p))))"
proof -
  assume f0: "f0 \<in> set foffs" "f0 \<noteq> 0"
  define rs where "rs = map (\<lambda>f. 1 / f) (filter (\<lambda>f. f \<noteq> 0) foffs)"
  from f0 have "1 / f0 \<in> set rs" by (auto simp: rs_def)
  then obtain r rest where rs: "rs = r # rest" by (cases rs) auto
  define p where "p = foldl max r rest"
  have per: "get_foffs_period foffs = Inr (py_int p)"
    using rs by (simp add: get_foffs_period_def rs_def [symmetric] p_def)
  have "p \<in> set rs" unfolding p_def rs by (rule foldl_max_mem)
  then have mem: "\<exists>f \<in> set foffs. f \<noteq> 0 \<and> p = 1 / f" by (auto simp: rs_def)
  have ub: "\<forall>f \<in> set foffs. f \<noteq> 0 \<longrightarrow> 1 / f \<le> p"
  proof (intro ballI impI)
    fix f assume "f \<in> set foffs" "f \<noteq> 0"
    then have "1 / f \<in> set (r # rest)" unfolding rs [symmetric] by (auto simp: rs_def)
    then show "1 / f \<le> p"
      unfolding p_def using foldl_max_ge [of r rest] foldl_max_ge_elem [of "1 / f" rest r]
      by auto
  qed
  have tr: "0 < py_int p \<longrightarrow>
             (\<exists>kept. demodulate_stream_truncate data foffs = Inr kept
                \<and> kept = take (nat (py_int p * (int (length data) div py_int p))) data
                \<and> int (length kept) = py_int p * (int (length data) div py_int p))"
  proof
    assume pos: "0 < py_int p"
    define nt where "nt = py_int p"
    define n where "n = int (length data)"
    have n0: "0 \<le> n" by (simp add: n_def)
    have le: "nt * (n div nt) \<le> n"
      using pos n0 by (metis nt_def mult.commute div_mult_mod_eq le_add_same_cancel1 pos_mod_sign)
    have ge: "0 \<le> nt * (n div nt)"
      using pos n0 by (simp add: nt_def pos_imp_zdiv_nonneg_iff)
    have len: "int (length (take (nat (nt * (n div nt))) data)) = nt * (n div nt)"
      using le ge unfolding n_def by (simp add: min_def) linarith
    have full: "take (nat (nt * (n div nt))) data = data" if "n mod nt = 0"
    proof -
      from that have "nt * (n div nt) = n" by (simp add: mod_eq_0_iff_dvd)
      then show ?thesis by (simp add: n_def)
    qed
    show "\<exists>kept. demodulate_stream_truncate data foffs = Inr kept
                \<and> kept = take (nat (py_int p * (int (length data) div py_int p))) data
                \<and> int (length kept) = py_int p * (int (length data) div py_int p)"
      using per pos len full
      by (auto simp: demodulate_stream_truncate_def nt_def n_def)
  qed
  from per mem ub tr show ?thesis by blast
qed

theorem period_is_largest_reciprocal_witness:
  "get_foffs_period [1 / 37, 1 / 37] = Inr 37
   \<and> (\<exists>kept. demodulate_stream_truncate (replicate 100 (0::complex)) [1 / 37, 1 / 37] = Inr kept
        \<and> length kept = 74)"
proof -
  have per: "get_foffs_period [1 / 37, 1 / 37] = Inr 37"
    by (simp add: get_foffs_period_def py_int_def)
  have mem: "(1 / 37 :: real) \<in> set [1 / 37, 1 / 37]" and nz: "(1 / 37 :: real) \<noteq> 0"
    by simp_all
  from period_is_largest_reciprocal [OF mem nz, of "replicate 100 (0::complex)"]
  obtain p where p: "get_foffs_period [1 / 37, 1 / 37] = Inr (py_int p)"
    and tr: "0 < py_int p \<longrightarrow>
       (\<exists>kept. demodulate_stream_truncate (replicate 100 (0::complex)) [1 / 37, 1 / 37] = Inr kept
          \<and> kept = take (nat (py_int p * (int (length (replicate 100 (0::complex))) div py_int p)))
                     (replicate 100 (0::complex))
          \<and> int (length kept) = py_int p * (int (length (replicate 100 (0::complex))) div py_int p))"
    by blast
  from p per have p37: "py_int p = 37" by simp
  from tr p37 obtain kept where
    k: "demodulate_stream_truncate (replicate 100 (0::complex)) [1 / 37, 1 / 37] = Inr kept"
    and l: "int (length kept) = 37 * (int (length (replicate 100 (0::complex))) div 37)"
    by auto
  from l have "length kept = 74" by simp
  with per k show ?thesis by blast
qed

lemma floor_log2_int:
  assumes "2 ^ n \<le> c" "c < 2 ^ Suc n"
  shows "\<lfloor>log 2 (of_int c)\<rfloor> = int n"
proof -
  from assms have c0: "0 \<le> c" by (smt (verit) zero_le_power)
  have a: "(2::nat) ^ n \<le> nat c" using assms(1) c0
    by (metis nat_mono nat_2 nat_numeral nat_power_eq numeral_2_eq_2 of_nat_numeral zero_le_numeral of_nat_power nat_int)
  have b: "nat c < (2::nat) ^ (n + 1)" using assms(2) c0
    by (simp add: nat_less_iff)
  have "\<lfloor>log (real (2::nat)) (real (nat c))\<rfloor> = int n"
    by (rule floor_log_nat_eq_if [OF a b]) simp
  then show ?thesis using c0 by simp
qed

lemma int_log2_ge_one:
  assumes "2 \<le> c"
  shows "int_log2 c = Inr \<lfloor>log 2 (of_int c)\<rfloor>" and "1 \<le> \<lfloor>log 2 (real_of_int c)\<rfloor>"
proof -
  have "log 2 2 \<le> log 2 (real_of_int c)" using assms by (subst log_le_cancel_iff) auto
  then have l1: "1 \<le> log 2 (real_of_int c)" by simp
  then show "1 \<le> \<lfloor>log 2 (real_of_int c)\<rfloor>" by linarith
  show "int_log2 c = Inr \<lfloor>log 2 (of_int c)\<rfloor>"
    using assms l1 by (simp add: int_log2_def py_int_def)
qed

lemma chan_counts_ge_two:
  assumes "0 < nchan" "2 * nchan \<le> 1024 * n_fft"
  shows "2 \<le> n_fft * 1024 div (nchan::int)"
proof -
  have "2 = (2 * nchan) div nchan" using assms(1) by simp
  also have "\<dots> \<le> (1024 * n_fft) div nchan" using assms by (intro zdiv_mono1) auto
  finally show ?thesis by (simp add: mult.commute)
qed

lemma packet_phase_counts_ok:
  assumes "0 < nchan" "2 * nchan \<le> 1024 * n_fft"
  shows "packet_phase_counts seq_no nchan n_fft ns =
     (let chan_counts = n_fft * 1024 div nchan;
          modn = (if ns div chan_counts = 0 then 1 else ns div chan_counts);
          shift = nat (\<lfloor>log 2 (of_int chan_counts)\<rfloor> - 1)
      in Inr ((seq_no div 2 ^ shift) mod modn, ns div n_fft, modn))"
proof -
  have cc: "2 \<le> n_fft * 1024 div nchan" by (rule chan_counts_ge_two [OF assms])
  have nz: "n_fft \<noteq> 0" using cc by auto
  show ?thesis
    using assms(1) nz cc int_log2_ge_one [OF cc]
    by (simp add: packet_phase_counts_def Let_def)
qed

lemma norm_phase_factor: "norm (phase_factor s multy modn f) = 1"
  by (simp add: phase_factor_def)

text \<open>
  C8. For a channel count between 1 and 512 times the FFT length (so that the shift is
  not negative), packet_phase returns one unit-magnitude factor per channel,
  exp(-2 pi i s foffs multy / modn), where modn is the integer quotient
  ns / (nfft * 1024 / nchan) replaced by 1 when it is zero, multy is the integer quotient
  ns / nfft, and s is the sequence number shifted right by int(log2(nfft * 1024 / nchan)) - 1
  bits and reduced modulo modn; when nfft divides ns the integer quotient multy is the
  exact quotient. The factor has no dependence on the sample index.
\<close>

theorem packet_phase_formula:
  "0 < nchan \<Longrightarrow> 2 * nchan \<le> 1024 * n_fft \<Longrightarrow>
     (let chan_counts = n_fft * 1024 div nchan;
          modn = (if ns div chan_counts = 0 then 1 else ns div chan_counts);
          shift = nat (\<lfloor>log 2 (of_int chan_counts)\<rfloor> - 1);
          s = (seq_no div 2 ^ shift) mod modn
      in \<exists>ps. packet_phase_channels seq_no foffs nchan n_fft ns = Inr ps
           \<and> length ps = length foffs
           \<and> (\<forall>c < length foffs.
                 ps ! c = exp (- 2 * of_real pi * \<i> * of_int s * of_real (foffs ! c)
                               * of_int (ns div n_fft) / of_int modn)
                 \<and> norm (ps ! c) = 1)
           \<and> (n_fft dvd ns \<longrightarrow>
                 (of_int (ns div n_fft) :: complex) = of_int ns / of_int n_fft))"
proof -
  assume h: "0 < nchan" "2 * nchan \<le> 1024 * n_fft"
  have nz: "n_fft \<noteq> 0" using h by auto
  have q: "(of_int (ns div n_fft) :: complex) = of_int ns / of_int n_fft" if "n_fft dvd ns"
    using that nz by (auto simp: dvd_def)
  show ?thesis
    using packet_phase_counts_ok [OF h, of seq_no ns] q
    by (simp add: packet_phase_channels_def Let_def norm_phase_factor)
       (simp add: phase_factor_def mult_ac)
qed

theorem packet_phase_formula_witness:
  "packet_phase_channels 3072 [1 / 3, 0] 2 2 4096
     = Inr [exp (- 2 * of_real pi * \<i> * 2 * of_real (1 / 3) * 2048 / 4), 1]"
proof -
  have l: "\<lfloor>log 2 (real_of_int 1024)\<rfloor> = 10"
    using floor_log2_int [of 10 1024] by simp
  have h1: "(0::int) < 2" and h2: "2 * (2::int) \<le> 1024 * 2" by simp_all
  from packet_phase_formula [OF h1 h2, of 4096 3072 "[1 / 3, 0]"] l
  obtain ps where ps: "packet_phase_channels 3072 [1 / 3, 0] 2 2 4096 = Inr ps"
    and len: "length ps = 2"
    and el: "\<forall>c < 2. ps ! c = exp (- 2 * of_real pi * \<i> * of_int ((3072 div 2 ^ nat (10 - 1)) mod 4) * of_real ([1 / 3, 0] ! c)
                               * of_int (4096 div 2) / of_int 4)"
    by (auto simp: Let_def)
  have e0: "ps ! 0 = exp (- 2 * of_real pi * \<i> * 2 * of_real (1 / 3) * 2048 / 4)"
    using el by simp
  have e1: "ps ! 1 = 1" using el by simp
  have "ps = [ps ! 0, ps ! 1]"
    using len by (simp add: list_eq_iff_nth_eq less_Suc_eq numeral_2_eq_2)
  with e0 e1 ps show ?thesis by simp
qed

lemma interp_inside_segment:
  "sorted_wrt (<) (map fst tbl) \<Longrightarrow> Suc j < length tbl \<Longrightarrow>
   fst (tbl ! j) \<le> x \<Longrightarrow> x < fst (tbl ! Suc j) \<Longrightarrow>
   interp_inside x tbl =
     (snd (tbl ! Suc j) - snd (tbl ! j)) / (fst (tbl ! Suc j) - fst (tbl ! j)) * (x - fst (tbl ! j))
       + snd (tbl ! j)"
proof (induction x tbl arbitrary: j rule: interp_inside.induct)
  case (1 x x0 y0 x1 y1 rest)
  show ?case
  proof (cases j)
    case 0
    with "1.prems" show ?thesis by simp
  next
    case (Suc j')
    from "1.prems"(1) have s: "sorted_wrt (<) (map fst ((x1, y1) # rest))" by simp
    have "x1 \<le> fst (((x1, y1) # rest) ! j')"
    proof (cases j')
      case 0
      then show ?thesis by simp
    next
      case (Suc i)
      with "1.prems"(2) \<open>j = Suc j'\<close> have "i < length rest" by simp
      then have "rest ! i \<in> set rest" by simp
      with s Suc show ?thesis by auto
    qed
    also have "\<dots> \<le> x" using "1.prems"(3) Suc by simp
    finally have nlt: "\<not> x < x1" by simp
    have "interp_inside x ((x1, y1) # rest) =
       (snd (((x1, y1) # rest) ! Suc j') - snd (((x1, y1) # rest) ! j'))
         / (fst (((x1, y1) # rest) ! Suc j') - fst (((x1, y1) # rest) ! j'))
         * (x - fst (((x1, y1) # rest) ! j')) + snd (((x1, y1) # rest) ! j')"
      using "1.prems" Suc nlt s by (intro "1.IH") auto
    with nlt Suc show ?thesis by simp
  qed
qed simp_all

lemma interp_inside_last:
  "tbl \<noteq> [] \<Longrightarrow> sorted_wrt (<) (map fst tbl) \<Longrightarrow> x = fst (last tbl) \<Longrightarrow>
   interp_inside x tbl = snd (last tbl)"
proof (induction x tbl rule: interp_inside.induct)
  case (1 x x0 y0 x1 y1 rest)
  have "x1 \<le> fst (last ((x1, y1) # rest))"
  proof (cases "rest = []")
    case True
    then show ?thesis by simp
  next
    case False
    then have "last rest \<in> set rest" by simp
    with "1.prems"(2) have "x1 < fst (last rest)" by simp
    with False show ?thesis by simp
  qed
  with "1.prems" have nlt: "\<not> x < x1" by simp
  with "1" show ?case by simp
qed simp_all

lemma interp_returns:
  assumes "xp \<noteq> []" "length fp = length xp"
  shows "\<exists>r. np_interp x xp fp = Inr r"
  using assms by (simp add: np_interp_def)

text \<open>
  C4, as stated, fails: outside the tabulated span the lookup raises nothing. With the
  table (-1, 0, 1) -> (1/2, 1, 1/2) and the offset 5, right of the table, it returns 2,
  the reciprocal of the last tabulated response.
\<close>

theorem pfb_response_outside_span_counterexample:
  "compute_pfb_response
     \<lparr>self_nfft = 16384, self_hardware_delay_samples = 0,
      self_window_frequency = [-1, 0, 1], self_window_response = [1 / 2, 1, 1 / 2]\<rparr> 5
   = Inr 2"
  by (simp add: compute_pfb_response_def np_interp_def)

text \<open>
  C4, amended. For a non-empty response table with increasing frequencies, the lookup
  returns the reciprocal of a response r (a zero r giving an infinite result): left of
  the tabulated span r is the first tabulated response, right of it (or at its end) the
  last one, and inside the span r is the linear interpolation between the two neighbouring
  table entries. No offset raises an error.
\<close>

theorem pfb_response_lookup:
  "self_window_frequency d \<noteq> [] \<Longrightarrow>
   length (self_window_response d) = length (self_window_frequency d) \<Longrightarrow>
   sorted_wrt (<) (self_window_frequency d) \<Longrightarrow>
   (let xp = self_window_frequency d; fp = self_window_response d
    in \<exists>r. compute_pfb_response d x = (if r = 0 then Inl NonFinite else Inr (1 / r))
         \<and> (x < hd xp \<longrightarrow> r = hd fp)
         \<and> (last xp \<le> x \<longrightarrow> r = last fp)
         \<and> (\<forall>j. Suc j < length xp \<and> xp ! j \<le> x \<and> x < xp ! Suc j \<longrightarrow>
               r = (fp ! Suc j - fp ! j) / (xp ! Suc j - xp ! j) * (x - xp ! j) + fp ! j))"
proof -
  define xp where "xp = self_window_frequency d"
  define fp where "fp = self_window_response d"
  assume ne: "self_window_frequency d \<noteq> []"
    and len: "length (self_window_response d) = length (self_window_frequency d)"
    and inc: "sorted_wrt (<) (self_window_frequency d)"
  have ne': "xp \<noteq> []" and len': "length fp = length xp" and inc': "sorted_wrt (<) xp"
    using ne len inc by (simp_all add: xp_def fp_def)
  have fne: "fp \<noteq> []" using ne' len' by auto
  have zne: "zip xp fp \<noteq> []" using ne' fne by (cases xp; cases fp) auto
  have mf: "map fst (zip xp fp) = xp" using len' by simp
  have lz: "last (zip xp fp) = (last xp, last fp)"
    using len' ne' fne by (simp add: last_zip)
  have hd_le_last: "hd xp \<le> last xp"
  proof (cases xp)
    case Nil
    with ne' show ?thesis by simp
  next
    case (Cons a as)
    show ?thesis
    proof (cases "as = []")
      case True
      with Cons show ?thesis by simp
    next
      case False
      then have "last as \<in> set as" by simp
      with inc' Cons have "a < last as" by simp
      with Cons False show ?thesis by simp
    qed
  qed
  obtain r where r: "np_interp x xp fp = Inr r"
    using interp_returns [OF ne' len'] by blast
  have resp: "compute_pfb_response d x = (if r = 0 then Inl NonFinite else Inr (1 / r))"
    using r by (simp add: compute_pfb_response_def xp_def fp_def)
  have left: "x < hd xp \<longrightarrow> r = hd fp"
    using r ne' len' hd_le_last by (auto simp: np_interp_def split: if_splits)
  have right: "last xp \<le> x \<longrightarrow> r = last fp"
  proof
    assume le: "last xp \<le> x"
    show "r = last fp"
    proof (cases "last xp < x")
      case True
      with r ne' len' show ?thesis by (simp add: np_interp_def)
    next
      case False
      with le have eq: "x = last xp" by simp
      then have "\<not> x < hd xp" using hd_le_last by simp
      with r ne' len' eq have "r = interp_inside x (zip xp fp)"
        by (simp add: np_interp_def)
      also have "\<dots> = snd (last (zip xp fp))"
        by (rule interp_inside_last [OF zne]) (simp_all add: mf inc' lz eq)
      finally show ?thesis by (simp add: lz)
    qed
  qed
  have mid: "\<forall>j. Suc j < length xp \<and> xp ! j \<le> x \<and> x < xp ! Suc j \<longrightarrow>
               r = (fp ! Suc j - fp ! j) / (xp ! Suc j - xp ! j) * (x - xp ! j) + fp ! j"
  proof (intro allI impI)
    fix j assume j: "Suc j < length xp \<and> xp ! j \<le> x \<and> x < xp ! Suc j"
    have "hd xp \<le> xp ! j"
    proof (cases j)
      case 0
      with ne' show ?thesis by (simp add: hd_conv_nth)
    next
      case (Suc i)
      have "xp ! 0 < xp ! j" using sorted_wrt_nth_less [OF inc', of 0 j] j Suc by simp
      with ne' show ?thesis by (simp add: hd_conv_nth)
    qed
    with j have nl: "\<not> x < hd xp" by simp
    have "xp ! Suc j \<le> last xp"
    proof (cases "Suc j = length xp - 1")
      case True
      with ne' show ?thesis by (simp add: last_conv_nth)
    next
      case False
      with j have "Suc j < length xp - 1" by linarith
      then have "xp ! Suc j < xp ! (length xp - 1)"
        using sorted_wrt_nth_less [OF inc', of "Suc j" "length xp - 1"] ne' by simp
      with ne' show ?thesis by (simp add: last_conv_nth)
    qed
    with j have nr: "\<not> last xp < x" by simp
    from r ne' len' nl nr have "r = interp_inside x (zip xp fp)"
      by (simp add: np_interp_def)
    also have "\<dots> = (snd (zip xp fp ! Suc j) - snd (zip xp fp ! j))
         / (fst (zip xp fp ! Suc j) - fst (zip xp fp ! j)) * (x - fst (zip xp fp ! j))
         + snd (zip xp fp ! j)"
      using j len' inc' interp_inside_segment [of "zip xp fp" j x] by (simp add: mf)
    finally show "r = (fp ! Suc j - fp ! j) / (xp ! Suc j - xp ! j) * (x - xp ! j) + fp ! j"
      using j len' by simp
  qed
  from resp left right mid show ?thesis
    unfolding Let_def xp_def [symmetric] fp_def [symmetric] by blast
qed


theorem pfb_response_lookup_witness:
  "compute_pfb_response
     \<lparr>self_nfft = 16384, self_hardware_delay_samples = 0,
      self_window_frequency = [-1, 0, 1], self_window_response = [1 / 2, 1, 1 / 2]\<rparr> (1 / 2)
   = Inr (4 / 3)"
proof -
  define d where "d = \<lparr>self_nfft = 16384, self_hardware_delay_samples = 0,
      self_window_frequency = [-1, 0, 1], self_window_response = [1 / 2, 1, 1 / 2 :: real]\<rparr>"
  have h1: "self_window_frequency d \<noteq> []"
    and h2: "length (self_window_response d) = length (self_window_frequency d)"
    and h3: "sorted_wrt (<) (self_window_frequency d)"
    by (simp_all add: d_def)
  from pfb_response_lookup [OF h1 h2 h3, of "1 / 2"]
  obtain r where resp: "compute_pfb_response d (1 / 2) = (if r = 0 then Inl NonFinite else Inr (1 / r))"
    and mid: "\<forall>j. Suc j < length (self_window_frequency d) \<and> self_window_frequency d ! j \<le> 1 / 2
                 \<and> 1 / 2 < self_window_frequency d ! Suc j \<longrightarrow>
               r = (self_window_response d ! Suc j - self_window_response d ! j)
                     / (self_window_frequency d ! Suc j - self_window_frequency d ! j)
                     * (1 / 2 - self_window_frequency d ! j) + self_window_response d ! j"
    unfolding Let_def by blast
  from mid [rule_format, of 1] have "r = 3 / 4" by (simp add: d_def)
  with resp show ?thesis by (simp add: d_def)
qed




lemma py_for_all_ok:
  "(\<And>k. k \<in> set ks \<Longrightarrow> body k = Inr (g k)) \<Longrightarrow> py_for body ks = Inr (map g ks)"
  by (induction ks) simp_all

lemma eig_loop_ok:
  assumes "length pii \<le> length pqq" "length pii \<le> length piq"
  shows "py_for (eig_bin eigh pii pqq piq) [0 ..< length pii]
           = Inr (map (\<lambda>k. eigh (sym_matrix pii pqq piq k)) [0 ..< length pii])"
  using assms by (intro py_for_all_ok) (auto simp: eig_bin_def sym_matrix_def)

lemma eigh_exact_spec: "eigh_spec eigh_exact"
  unfolding eigh_spec_def
proof (intro allI)
  fix a b d :: real
  show "case eigh_exact (Mat2 a b b d) of
        ((w0, w1), v) \<Rightarrow>
          w0 \<le> w1
          \<and> a * m00 v + b * m10 v = w0 * m00 v \<and> b * m00 v + d * m10 v = w0 * m10 v
          \<and> a * m01 v + b * m11 v = w1 * m01 v \<and> b * m01 v + d * m11 v = w1 * m11 v
          \<and> (m00 v)\<^sup>2 + (m10 v)\<^sup>2 = 1 \<and> (m01 v)\<^sup>2 + (m11 v)\<^sup>2 = 1
          \<and> m00 v * m01 v + m10 v * m11 v = 0"
  proof (cases "b = 0")
    case True
    then show ?thesis by (simp add: eigh_exact_def)
  next
    case False
    define r where "r = sqrt (((a - d) / 2)\<^sup>2 + b\<^sup>2)"
    define w0 where "w0 = (a + d) / 2 - r"
    define w1 where "w1 = (a + d) / 2 + r"
    define n0 where "n0 = sqrt (b\<^sup>2 + (w0 - a)\<^sup>2)"
    define n1 where "n1 = sqrt (b\<^sup>2 + (w1 - a)\<^sup>2)"
    have r0: "0 \<le> r" by (simp add: r_def)
    have r2: "r\<^sup>2 = ((a - d) / 2)\<^sup>2 + b\<^sup>2" by (simp add: r_def)
    have b2: "0 < b\<^sup>2" using False by simp
    have n0sq: "n0\<^sup>2 = b\<^sup>2 + (w0 - a)\<^sup>2" by (simp add: n0_def)
    have n1sq: "n1\<^sup>2 = b\<^sup>2 + (w1 - a)\<^sup>2" by (simp add: n1_def)
    have n0pos: "0 < n0" unfolding n0_def using b2 by (intro real_sqrt_gt_zero add_pos_nonneg) simp_all
    have n1pos: "0 < n1" unfolding n1_def using b2 by (intro real_sqrt_gt_zero add_pos_nonneg) simp_all
    have p0: "(w0 - d) * (w0 - a) = r\<^sup>2 - ((a - d) / 2)\<^sup>2"
      unfolding w0_def by (simp add: power2_eq_square field_simps)
    have p1: "(w1 - d) * (w1 - a) = r\<^sup>2 - ((a - d) / 2)\<^sup>2"
      unfolding w1_def by (simp add: power2_eq_square field_simps)
    have p2: "(w0 - a) * (w1 - a) = ((a - d) / 2)\<^sup>2 - r\<^sup>2"
      unfolding w0_def w1_def by (simp add: power2_eq_square field_simps)
    have k0: "b * b + d * (w0 - a) = w0 * (w0 - a)"
    proof -
      have "w0 * (w0 - a) - d * (w0 - a) = (w0 - d) * (w0 - a)" by (simp add: left_diff_distrib)
      also have "\<dots> = b * b" unfolding p0 r2 by (simp add: power2_eq_square)
      finally show ?thesis by simp
    qed
    have k1: "b * b + d * (w1 - a) = w1 * (w1 - a)"
    proof -
      have "w1 * (w1 - a) - d * (w1 - a) = (w1 - d) * (w1 - a)" by (simp add: left_diff_distrib)
      also have "\<dots> = b * b" unfolding p1 r2 by (simp add: power2_eq_square)
      finally show ?thesis by simp
    qed
    have orth: "b * b + (w0 - a) * (w1 - a) = 0"
      unfolding p2 r2 by (simp add: power2_eq_square)
    have ex: "eigh_exact (Mat2 a b b d)
                = ((w0, w1), Mat2 (b / n0) (b / n1) ((w0 - a) / n0) ((w1 - a) / n1))"
      using False by (simp add: eigh_exact_def Let_def r_def w0_def w1_def n0_def n1_def)
    have e1: "a * (b / n0) + b * ((w0 - a) / n0) = w0 * (b / n0)"
      using n0pos by (simp add: field_simps)
    have e2: "b * (b / n0) + d * ((w0 - a) / n0) = w0 * ((w0 - a) / n0)"
    proof -
      have "b * (b / n0) + d * ((w0 - a) / n0) = (b * b + d * (w0 - a)) / n0"
        by (simp add: add_divide_distrib)
      also have "\<dots> = w0 * (w0 - a) / n0" by (simp only: k0)
      finally show ?thesis by simp
    qed
    have e3: "a * (b / n1) + b * ((w1 - a) / n1) = w1 * (b / n1)"
      using n1pos by (simp add: field_simps)
    have e4: "b * (b / n1) + d * ((w1 - a) / n1) = w1 * ((w1 - a) / n1)"
    proof -
      have "b * (b / n1) + d * ((w1 - a) / n1) = (b * b + d * (w1 - a)) / n1"
        by (simp add: add_divide_distrib)
      also have "\<dots> = w1 * (w1 - a) / n1" by (simp only: k1)
      finally show ?thesis by simp
    qed
    have u0: "(b / n0)\<^sup>2 + ((w0 - a) / n0)\<^sup>2 = 1"
    proof -
      have "(b / n0)\<^sup>2 + ((w0 - a) / n0)\<^sup>2 = (b\<^sup>2 + (w0 - a)\<^sup>2) / n0\<^sup>2"
        by (simp add: power_divide add_divide_distrib)
      also have "\<dots> = 1" using n0pos by (simp add: n0sq [symmetric])
      finally show ?thesis .
    qed
    have u1: "(b / n1)\<^sup>2 + ((w1 - a) / n1)\<^sup>2 = 1"
    proof -
      have "(b / n1)\<^sup>2 + ((w1 - a) / n1)\<^sup>2 = (b\<^sup>2 + (w1 - a)\<^sup>2) / n1\<^sup>2"
        by (simp add: power_divide add_divide_distrib)
      also have "\<dots> = 1" using n1pos by (simp add: n1sq [symmetric])
      finally show ?thesis .
    qed
    have o: "b / n0 * (b / n1) + (w0 - a) / n0 * ((w1 - a) / n1) = 0"
    proof -
      have "b / n0 * (b / n1) + (w0 - a) / n0 * ((w1 - a) / n1)
              = (b * b + (w0 - a) * (w1 - a)) / (n0 * n1)"
        by (simp add: add_divide_distrib)
      also have "\<dots> = 0" by (simp only: orth div_0)
      finally show ?thesis .
    qed
    have le: "w0 \<le> w1" using r0 by (simp add: w0_def w1_def)
    show ?thesis
      unfolding ex using le e1 e2 e3 e4 u0 u1 o by simp
  qed
qed

lemma eigh_spec_facts:
  assumes "eigh_spec eigh" "eigh (Mat2 a b b d) = ((w0, w1), v)"
  shows "w0 \<le> w1"
    and "a * m00 v + b * m10 v = w0 * m00 v" and "b * m00 v + d * m10 v = w0 * m10 v"
    and "a * m01 v + b * m11 v = w1 * m01 v" and "b * m01 v + d * m11 v = w1 * m11 v"
    and "(m00 v)\<^sup>2 + (m10 v)\<^sup>2 = 1" and "(m01 v)\<^sup>2 + (m11 v)\<^sup>2 = 1"
    and "m00 v * m01 v + m10 v * m11 v = 0"
  using assms(1) [unfolded eigh_spec_def, rule_format, of a b d] assms(2) by simp_all

lemma orthonormal_det:
  fixes p q r s :: real
  assumes "p\<^sup>2 + r\<^sup>2 = 1" "q\<^sup>2 + s\<^sup>2 = 1" "p * q + r * s = 0"
  shows "(p * s - q * r)\<^sup>2 = 1"
proof -
  have "(p * s - q * r)\<^sup>2 = (p\<^sup>2 + r\<^sup>2) * (q\<^sup>2 + s\<^sup>2) - (p * q + r * s)\<^sup>2"
    by (simp add: power2_eq_square algebra_simps)
  then show ?thesis using assms by simp
qed

lemma det2_cmat: "det2 (cmat v) = of_real (m00 v * m11 v - m01 v * m10 v)"
  by (simp add: det2_def cmat_def)

lemma eigh_spec_invertible:
  assumes "eigh_spec eigh"
  shows "det2 (cmat (snd (eigh (sym_matrix pii pqq piq k)))) \<noteq> 0"
proof -
  obtain w0 w1 v where e: "eigh (Mat2 (pii ! k) (Re (piq ! k)) (Re (piq ! k)) (pqq ! k)) = ((w0, w1), v)"
    by (metis surj_pair)
  have "(m00 v * m11 v - m01 v * m10 v)\<^sup>2 = 1"
    using eigh_spec_facts(6,7,8) [OF assms e] by (rule orthonormal_det)
  then have "m00 v * m11 v - m01 v * m10 v \<noteq> 0" by auto
  then show ?thesis using e by (simp add: sym_matrix_def det2_cmat del: of_real_diff of_real_mult)
qed

lemma calculate_pca_noise_ok:
  assumes len: "length pii \<le> length pqq" "length pii \<le> length piq"
    and pos: "0 < length pii"
    and inv: "inv2 (cmat (snd (eigh (sym_matrix pii pqq piq 0)))) = Inr invv"
  shows "calculate_pca_noise eigh pii pqq piq =
     Inr \<lparr>S = map (project_bin invv (cmat (snd (eigh (sym_matrix pii pqq piq 0)))) pii pqq piq)
                  [0 ..< length pii],
          evals = map (\<lambda>k. fst (eigh (sym_matrix pii pqq piq k))) [0 ..< length pii],
          evects = map (\<lambda>k. cmat (snd (eigh (sym_matrix pii pqq piq k)))) [0 ..< length pii],
          angles = map (\<lambda>k. angle_pair (cmat (snd (eigh (sym_matrix pii pqq piq k)))))
                       [0 ..< length pii]\<rparr>"
proof -
  have u: "[0 ..< length pii] = 0 # [1 ..< length pii]"
    using pos by (simp add: upt_conv_Cons)
  have ev: "map (\<lambda>r. cmat (snd r)) (map (\<lambda>k. eigh (sym_matrix pii pqq piq k)) [0 ..< length pii])
        = cmat (snd (eigh (sym_matrix pii pqq piq 0)))
            # map (\<lambda>k. cmat (snd (eigh (sym_matrix pii pqq piq k)))) [1 ..< length pii]"
    by (subst u) (simp add: comp_def)
  show ?thesis
    unfolding calculate_pca_noise_def Let_def eig_loop_ok [OF len] sum.case ev list.case inv
    by (simp add: comp_def u)
qed


lemma inv2_cmat:
  assumes "m00 v * m11 v - m01 v * m10 v \<noteq> 0"
  shows "inv2 (cmat v) =
    Inr (cmat (Mat2 (m11 v / (m00 v * m11 v - m01 v * m10 v))
                    (- m01 v / (m00 v * m11 v - m01 v * m10 v))
                    (- m10 v / (m00 v * m11 v - m01 v * m10 v))
                    (m00 v / (m00 v * m11 v - m01 v * m10 v))))"
  using assms by (simp add: inv2_def det2_cmat del: of_real_diff of_real_mult)
     (simp add: cmat_def)

lemma fixed_basis_diagonal_real:
  fixes v :: "real mat2"
  assumes o: "m00 v * m01 v + m10 v * m11 v = 0"
    and i: "inv2 (cmat v) = Inr invv"
  shows "Im (m00 (dot2 (dot2 invv (Mat2 (of_real a) z (cnj z) (of_real d))) (cmat v))) = 0"
    and "Im (m11 (dot2 (dot2 invv (Mat2 (of_real a) z (cnj z) (of_real d))) (cmat v))) = 0"
proof -
  define D where "D = m00 v * m11 v - m01 v * m10 v"
  have nz: "D \<noteq> 0"
  proof
    assume "D = 0"
    then have "det2 (cmat v) = 0" by (simp add: det2_cmat D_def del: of_real_diff of_real_mult)
    with i show False by (simp add: inv2_def)
  qed
  have iv: "invv = cmat (Mat2 (m11 v / D) (- m01 v / D) (- m10 v / D) (m00 v / D))"
    using i inv2_cmat [of v] nz by (simp add: D_def)
  have "Im (m00 (dot2 (dot2 invv (Mat2 (of_real a) z (cnj z) (of_real d))) (cmat v)))
          = Im z * (m00 v * m01 v + m10 v * m11 v) / D"
    unfolding iv using nz by (simp add: dot2_def cmat_def field_simps)
  then show "Im (m00 (dot2 (dot2 invv (Mat2 (of_real a) z (cnj z) (of_real d))) (cmat v))) = 0"
    using o by simp
  have "Im (m11 (dot2 (dot2 invv (Mat2 (of_real a) z (cnj z) (of_real d))) (cmat v)))
          = - Im z * (m00 v * m01 v + m10 v * m11 v) / D"
    unfolding iv using nz by (simp add: dot2_def cmat_def field_simps)
  then show "Im (m11 (dot2 (dot2 invv (Mat2 (of_real a) z (cnj z) (of_real d))) (cmat v))) = 0"
    using o by simp
qed


lemma psd_quadratic_nonneg:
  fixes a b d x y :: real
  assumes "0 \<le> a" "0 \<le> d" "b\<^sup>2 \<le> a * d"
  shows "0 \<le> a * x\<^sup>2 + 2 * b * x * y + d * y\<^sup>2"
proof (cases "a = 0")
  case True
  with assms(3) have "b = 0" by simp
  with True assms(2) show ?thesis by simp
next
  case False
  with assms(1) have apos: "0 < a" by simp
  have "a * (a * x\<^sup>2 + 2 * b * x * y + d * y\<^sup>2) = (a * x + b * y)\<^sup>2 + (a * d - b\<^sup>2) * y\<^sup>2"
    by (simp add: power2_eq_square algebra_simps)
  also have "0 \<le> \<dots>" using assms(3) by (intro add_nonneg_nonneg mult_nonneg_nonneg) simp_all
  finally have "0 \<le> a * (a * x\<^sup>2 + 2 * b * x * y + d * y\<^sup>2)" .
  with apos show ?thesis by (simp add: zero_le_mult_iff)
qed

lemma unit_eigenvector_value:
  fixes a b d w x y :: real
  assumes "a * x + b * y = w * x" "b * x + d * y = w * y" "x\<^sup>2 + y\<^sup>2 = 1"
  shows "w = a * x\<^sup>2 + 2 * b * x * y + d * y\<^sup>2"
proof -
  have "a * x\<^sup>2 + 2 * b * x * y + d * y\<^sup>2 = x * (a * x + b * y) + y * (b * x + d * y)"
    by (simp add: power2_eq_square algebra_simps)
  also have "\<dots> = w * (x\<^sup>2 + y\<^sup>2)"
    unfolding assms(1,2) by (simp add: power2_eq_square algebra_simps)
  finally show ?thesis using assms(3) by simp
qed

lemma psd_bin_sym:
  assumes "psd_bin pii pqq piq k"
  shows "0 \<le> pii ! k" "0 \<le> pqq ! k" "(Re (piq ! k))\<^sup>2 \<le> pii ! k * pqq ! k"
proof -
  from assms show "0 \<le> pii ! k" "0 \<le> pqq ! k" by (simp_all add: psd_bin_def)
  have "(Re (piq ! k))\<^sup>2 \<le> (cmod (piq ! k))\<^sup>2"
    by (simp add: cmod_power2)
  also have "\<dots> \<le> pii ! k * pqq ! k" using assms by (simp add: psd_bin_def)
  finally show "(Re (piq ! k))\<^sup>2 \<le> pii ! k * pqq ! k" .
qed

lemma eigh_spec_psd_nonneg:
  assumes s: "eigh_spec eigh" and p: "psd_bin pii pqq piq k"
  shows "0 \<le> fst (fst (eigh (sym_matrix pii pqq piq k)))"
    and "0 \<le> snd (fst (eigh (sym_matrix pii pqq piq k)))"
proof -
  obtain w0 w1 v where e: "eigh (Mat2 (pii ! k) (Re (piq ! k)) (Re (piq ! k)) (pqq ! k)) = ((w0, w1), v)"
    by (metis surj_pair)
  note f = eigh_spec_facts [OF s e]
  have "w0 = pii ! k * (m00 v)\<^sup>2 + 2 * Re (piq ! k) * m00 v * m10 v + pqq ! k * (m10 v)\<^sup>2"
    by (rule unit_eigenvector_value [OF f(2) f(3) f(6)])
  then have w0: "0 \<le> w0" using psd_quadratic_nonneg [OF psd_bin_sym [OF p]] by simp
  with f(1) have w1: "0 \<le> w1" by simp
  from w0 e show "0 \<le> fst (fst (eigh (sym_matrix pii pqq piq k)))" by (simp add: sym_matrix_def)
  from w1 e show "0 \<le> snd (fst (eigh (sym_matrix pii pqq piq k)))" by (simp add: sym_matrix_def)
qed

lemma calculate_pca_noise_evals:
  assumes len: "length pii \<le> length pqq" "length pii \<le> length piq"
    and r: "calculate_pca_noise eigh pii pqq piq = Inr res"
  shows "evals res = map (\<lambda>k. fst (eigh (sym_matrix pii pqq piq k))) [0 ..< length pii]"
    and "evects res = map (\<lambda>k. cmat (snd (eigh (sym_matrix pii pqq piq k)))) [0 ..< length pii]"
  using r unfolding calculate_pca_noise_def Let_def eig_loop_ok [OF len] sum.case
  by (auto simp: comp_def split: list.splits sum.splits)

lemma calculate_pca_noise_returns:
  assumes s: "eigh_spec eigh"
    and len: "length pii \<le> length pqq" "length pii \<le> length piq"
    and pos: "0 < length pii"
  shows "\<exists>res invv. calculate_pca_noise eigh pii pqq piq = Inr res
       \<and> inv2 (evects res ! 0) = Inr invv
       \<and> S res = map (project_bin invv (evects res ! 0) pii pqq piq) [0 ..< length pii]"
proof -
  have "det2 (cmat (snd (eigh (sym_matrix pii pqq piq 0)))) \<noteq> 0"
    by (rule eigh_spec_invertible [OF s])
  then obtain invv where i: "inv2 (cmat (snd (eigh (sym_matrix pii pqq piq 0)))) = Inr invv"
    by (simp add: inv2_def)
  show ?thesis
    using calculate_pca_noise_ok [of pii pqq piq eigh invv, OF len pos i] i pos
    by (simp add: nth_map)
qed


text \<open>
  C6. With an eigensolver that meets its contract, for every frequency bin k the rotated
  power pair is the diagonal of V0^-1 M_k V0, where M_k = [[S_ii[k], S_iq[k]],
  [conj(S_iq[k]), S_qq[k]]] is the bin's full matrix and V0 is the eigenvector matrix
  recorded for bin 0: the diagonal is real, so the assignment into the real array loses
  nothing.
\<close>

theorem rotated_power_fixed_basis:
  "eigh_spec eigh \<Longrightarrow> length pii \<le> length pqq \<Longrightarrow> length pii \<le> length piq \<Longrightarrow>
   k < length pii \<Longrightarrow>
   (\<exists>res invv. calculate_pca_noise eigh pii pqq piq = Inr res
      \<and> inv2 (evects res ! 0) = Inr invv
      \<and> of_real (fst (S res ! k))
          = m00 (dot2 (dot2 invv (full_matrix pii pqq piq k)) (evects res ! 0))
      \<and> of_real (snd (S res ! k))
          = m11 (dot2 (dot2 invv (full_matrix pii pqq piq k)) (evects res ! 0)))"
proof -
  assume s: "eigh_spec eigh" and l1: "length pii \<le> length pqq" and l2: "length pii \<le> length piq"
    and k: "k < length pii"
  from k have pos: "0 < length pii" by (cases pii) simp_all
  obtain res invv where r: "calculate_pca_noise eigh pii pqq piq = Inr res"
    and i: "inv2 (evects res ! 0) = Inr invv"
    and sr: "S res = map (project_bin invv (evects res ! 0) pii pqq piq) [0 ..< length pii]"
    using calculate_pca_noise_returns [OF s l1 l2 pos] by blast
  define v where "v = snd (eigh (sym_matrix pii pqq piq 0))"
  have v0: "evects res ! 0 = cmat v"
    using calculate_pca_noise_evals(2) [OF l1 l2 r] pos by (simp add: v_def)
  obtain w0 w1 where e: "eigh (Mat2 (pii ! 0) (Re (piq ! 0)) (Re (piq ! 0)) (pqq ! 0)) = ((w0, w1), v)"
    unfolding v_def sym_matrix_def by (metis prod.collapse)
  have o: "m00 v * m01 v + m10 v * m11 v = 0" by (rule eigh_spec_facts(8) [OF s e])
  have i': "inv2 (cmat v) = Inr invv" using i v0 by simp
  have sk: "S res ! k = project_bin invv (cmat v) pii pqq piq k"
    using sr k v0 by simp
  have im0: "Im (m00 (dot2 (dot2 invv (full_matrix pii pqq piq k)) (cmat v))) = 0"
    unfolding full_matrix_def by (rule fixed_basis_diagonal_real(1) [OF o i'])
  have im1: "Im (m11 (dot2 (dot2 invv (full_matrix pii pqq piq k)) (cmat v))) = 0"
    unfolding full_matrix_def by (rule fixed_basis_diagonal_real(2) [OF o i'])
  have a: "of_real (fst (S res ! k)) = m00 (dot2 (dot2 invv (full_matrix pii pqq piq k)) (cmat v))"
    using im0 by (simp add: sk project_bin_def Let_def complex_eq_iff)
  have b: "of_real (snd (S res ! k)) = m11 (dot2 (dot2 invv (full_matrix pii pqq piq k)) (cmat v))"
    using im1 by (simp add: sk project_bin_def Let_def complex_eq_iff)
  from a b have "of_real (fst (S res ! k))
          = m00 (dot2 (dot2 invv (full_matrix pii pqq piq k)) (evects res ! 0))
      \<and> of_real (snd (S res ! k))
          = m11 (dot2 (dot2 invv (full_matrix pii pqq piq k)) (evects res ! 0))"
    by (simp add: v0)
  with r i show ?thesis by blast
qed

text \<open>
  C7, amended. With an eigensolver that meets its contract, for every frequency bin k the
  recorded eigenvalue pair (ascending) and eigenvector matrix are an eigendecomposition of
  the real symmetric matrix [[S_ii[k], Re S_iq[k]], [Re S_iq[k], S_qq[k]]].
\<close>

theorem eigensolve_of_real_part:
  "eigh_spec eigh \<Longrightarrow> length pii \<le> length pqq \<Longrightarrow> length pii \<le> length piq \<Longrightarrow>
   k < length pii \<Longrightarrow>
   (\<exists>res. calculate_pca_noise eigh pii pqq piq = Inr res
      \<and> fst (evals res ! k) \<le> snd (evals res ! k)
      \<and> is_eigendecomposition (cmat (sym_matrix pii pqq piq k)) (evals res ! k) (evects res ! k))"
proof -
  assume s: "eigh_spec eigh" and l1: "length pii \<le> length pqq" and l2: "length pii \<le> length piq"
    and k: "k < length pii"
  from k have pos: "0 < length pii" by (cases pii) simp_all
  obtain res where r: "calculate_pca_noise eigh pii pqq piq = Inr res"
    using calculate_pca_noise_returns [OF s l1 l2 pos] by blast
  obtain w0 w1 v where e: "eigh (Mat2 (pii ! k) (Re (piq ! k)) (Re (piq ! k)) (pqq ! k)) = ((w0, w1), v)"
    by (metis surj_pair)
  note f = eigh_spec_facts [OF s e]
  have ev: "evals res ! k = (w0, w1)" and vk: "evects res ! k = cmat v"
    using calculate_pca_noise_evals [OF l1 l2 r] k e by (simp_all add: sym_matrix_def)
  have eq: "dot2 (cmat (sym_matrix pii pqq piq k)) (cmat v)
              = dot2 (cmat v) (Mat2 (of_real w0) 0 0 (of_real w1))"
    using f(2-5) by (simp add: dot2_def cmat_def sym_matrix_def complex_eq_iff mult.commute)
  have un: "dot2 (ctranspose2 (cmat v)) (cmat v) = Mat2 1 0 0 1"
    using f(6-8) by (simp add: dot2_def cmat_def ctranspose2_def complex_eq_iff power2_eq_square mult.commute)
  from f(1) eq un have "fst (evals res ! k) \<le> snd (evals res ! k)
      \<and> is_eigendecomposition (cmat (sym_matrix pii pqq piq k)) (evals res ! k) (evects res ! k)"
    by (simp add: ev vk is_eigendecomposition_def)
  with r show ?thesis by blast
qed

text \<open>
  C1, amended. The eigenvalues recorded for bin k are the ones the eigensolver returned
  for the bin's real symmetric matrix, unchanged; with an eigensolver that meets its
  contract in exact arithmetic they are non-negative on every positive-semidefinite bin.
  Nothing is clamped and the result has no record of clamping.
\<close>

theorem eigenvalues_passed_through:
  "length pii \<le> length pqq \<Longrightarrow> length pii \<le> length piq \<Longrightarrow> k < length pii \<Longrightarrow>
   (\<forall>res. calculate_pca_noise eigh pii pqq piq = Inr res \<longrightarrow>
       evals res ! k = fst (eigh (sym_matrix pii pqq piq k)))
   \<and> (eigh_spec eigh \<and> psd_bin pii pqq piq k \<longrightarrow>
       (\<exists>res. calculate_pca_noise eigh pii pqq piq = Inr res
          \<and> 0 \<le> fst (evals res ! k) \<and> 0 \<le> snd (evals res ! k)))"
proof -
  assume l1: "length pii \<le> length pqq" and l2: "length pii \<le> length piq"
    and k: "k < length pii"
  from k have pos: "0 < length pii" by (cases pii) simp_all
  have pass: "evals res ! k = fst (eigh (sym_matrix pii pqq piq k))"
    if "calculate_pca_noise eigh pii pqq piq = Inr res" for res
    using calculate_pca_noise_evals(1) [OF l1 l2 that] k by simp
  have nonneg: "\<exists>res. calculate_pca_noise eigh pii pqq piq = Inr res
          \<and> 0 \<le> fst (evals res ! k) \<and> 0 \<le> snd (evals res ! k)"
    if s: "eigh_spec eigh" and p: "psd_bin pii pqq piq k"
  proof -
    obtain res where r: "calculate_pca_noise eigh pii pqq piq = Inr res"
      using calculate_pca_noise_returns [OF s l1 l2 pos] by blast
    from pass [OF r] eigh_spec_psd_nonneg [OF s p] r show ?thesis by auto
  qed
  from pass nonneg show ?thesis by blast
qed


text \<open>
  C7, as stated, fails: the eigenproblem is solved for the real part of the cross
  density only. For S_ii = S_qq = 1 and S_iq = i the recorded pair is (1, 1) with the
  identity as eigenvectors, which is no eigendecomposition of [[1, i], [-i, 1]] (whose
  eigenvalues are 0 and 2).
\<close>

theorem eigensolve_ignores_imaginary_counterexample:
  "calculate_pca_noise eigh_exact [1] [1] [\<i>]
     = Inr \<lparr>S = [(1, 1)], evals = [(1, 1)], evects = [Mat2 1 0 0 1], angles = [(pi / 2, 0)]\<rparr>
   \<and> \<not> is_eigendecomposition (full_matrix [1] [1] [\<i>] 0) (1, 1) (Mat2 1 0 0 1)"
proof -
  have e: "eigh_exact (sym_matrix [1] [1] [\<i>] 0) = ((1, 1), Mat2 1 0 0 1)"
    by (simp add: eigh_exact_def sym_matrix_def)
  have i: "inv2 (cmat (snd (eigh_exact (sym_matrix [1] [1] [\<i>] 0)))) = Inr (Mat2 1 0 0 1)"
    unfolding e by (simp add: inv2_def det2_def cmat_def)
  have a: "angle_pair (Mat2 1 0 0 1) = (pi / 2, 0)"
    by (simp add: angle_pair_def np_arctan2_def np_mod_def)
  have "calculate_pca_noise eigh_exact [1] [1] [\<i>]
     = Inr \<lparr>S = [(1, 1)], evals = [(1, 1)], evects = [Mat2 1 0 0 1], angles = [(pi / 2, 0)]\<rparr>"
    using calculate_pca_noise_ok [of "[1]" "[1]" "[\<i>]" eigh_exact "Mat2 1 0 0 1", OF _ _ _ i]
    by (simp add: e a project_bin_def full_matrix_def dot2_def cmat_def)
  moreover have "\<not> is_eigendecomposition (full_matrix [1] [1] [\<i>] 0) (1, 1) (Mat2 1 0 0 1)"
    by (simp add: is_eigendecomposition_def full_matrix_def dot2_def)
  ultimately show ?thesis by simp
qed

theorem eigensolve_of_real_part_witness:
  "\<exists>res. calculate_pca_noise eigh_exact [1] [1] [\<i>] = Inr res
     \<and> fst (evals res ! 0) \<le> snd (evals res ! 0)
     \<and> is_eigendecomposition (Mat2 1 0 0 1) (evals res ! 0) (evects res ! 0)"
  using eigensolve_of_real_part [OF eigh_exact_spec, of "[1]" "[1]" "[\<i>]" 0]
  by (simp add: sym_matrix_def cmat_def)


lemma eigh_exact_ones: "eigh_exact (Mat2 1 1 1 1) = ((0, 2), Mat2 (1 / sqrt 2) (1 / sqrt 2) (- 1 / sqrt 2) (1 / sqrt 2))"
  by (simp add: eigh_exact_def Let_def)

lemma snd_eigh_rounded: "snd (eigh_rounded delta m) = snd (eigh_exact m)"
  by (simp add: eigh_rounded_def split: prod.splits)

text \<open>
  C1, as stated, fails: a negative eigenvalue coming out of the solver is stored as it
  is. On the positive-semidefinite triple S_ii = S_qq = S_iq = 1, at the Cauchy-Schwarz
  bound, a solver whose smallest eigenvalue is low by 1e-16 yields the recorded pair
  (-1e-16, 2).
\<close>

theorem eigenvalue_not_clamped_counterexample:
  "psd_bin [1] [1] [1] 0
   \<and> (case calculate_pca_noise (eigh_rounded (1 / 10 ^ 16)) [1] [1] [1] of
        Inl e \<Rightarrow> False
      | Inr res \<Rightarrow> evals res = [(- (1 / 10 ^ 16), 2)])"
proof -
  have p: "psd_bin [1] [1] [1] 0" by (simp add: psd_bin_def)
  have "det2 (cmat (snd (eigh_exact (sym_matrix [1] [1] [1] 0)))) \<noteq> 0"
    by (rule eigh_spec_invertible [OF eigh_exact_spec])
  then obtain invv where
    i: "inv2 (cmat (snd (eigh_rounded (1 / 10 ^ 16) (sym_matrix [1] [1] [1] 0)))) = Inr invv"
    by (simp add: inv2_def snd_eigh_rounded)
  have "calculate_pca_noise (eigh_rounded (1 / 10 ^ 16)) [1] [1] [1] =
     Inr \<lparr>S = map (project_bin invv (cmat (snd (eigh_rounded (1 / 10 ^ 16) (sym_matrix [1] [1] [1] 0)))) [1] [1] [1])
                  [0 ..< length [1::real]],
          evals = map (\<lambda>k. fst (eigh_rounded (1 / 10 ^ 16) (sym_matrix [1] [1] [1] k))) [0 ..< length [1::real]],
          evects = map (\<lambda>k. cmat (snd (eigh_rounded (1 / 10 ^ 16) (sym_matrix [1] [1] [1] k)))) [0 ..< length [1::real]],
          angles = map (\<lambda>k. angle_pair (cmat (snd (eigh_rounded (1 / 10 ^ 16) (sym_matrix [1] [1] [1] k)))))
                       [0 ..< length [1::real]]\<rparr>"
    by (rule calculate_pca_noise_ok
          [of "[1]" "[1]" "[1]" "eigh_rounded (1 / 10 ^ 16)" invv, OF _ _ _ i]) simp_all
  then have "case calculate_pca_noise (eigh_rounded (1 / 10 ^ 16)) [1] [1] [1] of
        Inl e \<Rightarrow> False
      | Inr res \<Rightarrow> evals res = [(- (1 / 10 ^ 16), 2)]"
    by (simp add: eigh_rounded_def sym_matrix_def eigh_exact_ones)
  with p show ?thesis by simp
qed

theorem eigenvalues_passed_through_witness:
  "\<exists>res. calculate_pca_noise eigh_exact [1] [1] [1] = Inr res
     \<and> evals res ! 0 = (0, 2) \<and> 0 \<le> fst (evals res ! 0) \<and> 0 \<le> snd (evals res ! 0)"
proof -
  have l: "length [1::real] \<le> length [1::real]" "length [1::real] \<le> length [1::complex]"
    "0 < length [1::real]" by simp_all
  have p: "eigh_spec eigh_exact \<and> psd_bin [1] [1] [1] 0"
    by (simp add: eigh_exact_spec psd_bin_def)
  from eigenvalues_passed_through [OF l, of eigh_exact] p
  obtain res where r: "calculate_pca_noise eigh_exact [1] [1] [1] = Inr res"
    and n: "0 \<le> fst (evals res ! 0)" "0 \<le> snd (evals res ! 0)"
    and e: "evals res ! 0 = fst (eigh_exact (sym_matrix [1] [1] [1] 0))"
    by blast
  from e have "evals res ! 0 = (0, 2)" by (simp add: sym_matrix_def eigh_exact_ones)
  with r n show ?thesis by blast
qed

theorem rotated_power_fixed_basis_witness:
  "\<exists>res. calculate_pca_noise eigh_exact [1, 3] [1, 1] [1, 1 + \<i>] = Inr res
      \<and> evects res ! 0 = Mat2 (1 / sqrt 2) (1 / sqrt 2) (- 1 / sqrt 2) (1 / sqrt 2)
      \<and> S res ! 1 = (1, 3)"
proof -
  have l: "length [1, 3 :: real] \<le> length [1, 1 :: real]"
    "length [1, 3 :: real] \<le> length [1, 1 + \<i>]" by simp_all
  have m: "full_matrix [1, 3] [1, 1] [1, 1 + \<i>] 1 = Mat2 3 (1 + \<i>) (1 - \<i>) 1"
    by (simp add: full_matrix_def complex_eq_iff)
  from rotated_power_fixed_basis [OF eigh_exact_spec l, of 1]
  obtain res invv where r: "calculate_pca_noise eigh_exact [1, 3] [1, 1] [1, 1 + \<i>] = Inr res"
    and i: "inv2 (evects res ! 0) = Inr invv"
    and s0: "of_real (fst (S res ! 1))
          = m00 (dot2 (dot2 invv (Mat2 3 (1 + \<i>) (1 - \<i>) 1)) (evects res ! 0))"
    and s1: "of_real (snd (S res ! 1))
          = m11 (dot2 (dot2 invv (Mat2 3 (1 + \<i>) (1 - \<i>) 1)) (evects res ! 0))"
    unfolding m by auto
  define V :: "complex mat2" where
    "V = Mat2 (1 / sqrt 2) (1 / sqrt 2) (- 1 / sqrt 2) (1 / sqrt 2)"
  have h: "complex_of_real (sqrt 2) * complex_of_real (sqrt 2) = 2"
    by (simp flip: of_real_mult)
  have v: "evects res ! 0 = V"
    using calculate_pca_noise_evals(2) [OF l r]
    by (simp add: sym_matrix_def eigh_exact_ones cmat_def upt_rec V_def)
  have d: "det2 V = 1"
    by (simp add: det2_def V_def h)
  have iv: "invv = Mat2 (m11 V) (- m01 V) (- m10 V) (m00 V)"
    using i unfolding v by (simp add: inv2_def d)
  have a: "fst (S res ! 1) = 1"
    using s0 h unfolding iv v by (simp add: dot2_def V_def complex_eq_iff field_simps)
  have b: "snd (S res ! 1) = 3"
    using s1 h unfolding iv v by (simp add: dot2_def V_def complex_eq_iff field_simps)
  from a b have "S res ! 1 = (1, 3)" by (simp add: prod_eq_iff)
  with r v show ?thesis unfolding V_def by blast
qed

lemma two_term_bound:
  fixes C A B p q :: real
  assumes "0 \<le> C" "0 \<le> A" "0 \<le> B" "0 \<le> p" "0 \<le> q" "C\<^sup>2 \<le> A * B"
  shows "(C + p * q)\<^sup>2 \<le> (A + p\<^sup>2) * (B + q\<^sup>2)"
proof -
  have "(C * (p * q))\<^sup>2 = C\<^sup>2 * (p\<^sup>2 * q\<^sup>2)" by (simp add: power_mult_distrib)
  also have "\<dots> \<le> (A * B) * (p\<^sup>2 * q\<^sup>2)"
    by (rule mult_right_mono [OF assms(6)]) simp
  also have "\<dots> = (A * q\<^sup>2) * (B * p\<^sup>2)" by (simp add: mult_ac)
  finally have sq: "(C * (p * q))\<^sup>2 \<le> (A * q\<^sup>2) * (B * p\<^sup>2)" .
  have "4 * ((A * q\<^sup>2) * (B * p\<^sup>2)) \<le> (A * q\<^sup>2 + B * p\<^sup>2)\<^sup>2"
  proof -
    have "0 \<le> (A * q\<^sup>2 - B * p\<^sup>2)\<^sup>2" by simp
    then show ?thesis by (simp add: power2_eq_square algebra_simps)
  qed
  with sq have "(2 * (C * (p * q)))\<^sup>2 \<le> (A * q\<^sup>2 + B * p\<^sup>2)\<^sup>2"
    by (simp add: power_mult_distrib)
  moreover have "0 \<le> A * q\<^sup>2 + B * p\<^sup>2" using assms by simp
  ultimately have am: "2 * (C * (p * q)) \<le> A * q\<^sup>2 + B * p\<^sup>2"
    by (rule power2_le_imp_le)
  have "(C + p * q)\<^sup>2 = C\<^sup>2 + 2 * (C * (p * q)) + p\<^sup>2 * q\<^sup>2"
    by (simp add: power2_eq_square algebra_simps)
  also have "\<dots> \<le> A * B + (A * q\<^sup>2 + B * p\<^sup>2) + p\<^sup>2 * q\<^sup>2"
    using assms(6) am by simp
  also have "\<dots> = (A + p\<^sup>2) * (B + q\<^sup>2)" by (simp add: algebra_simps)
  finally show ?thesis .
qed

lemma cross_sum_bound:
  "(cmod (\<Sum>(a, b) \<leftarrow> ps. cnj a * b))\<^sup>2
     \<le> (\<Sum>(a, b) \<leftarrow> ps. (cmod a)\<^sup>2) * (\<Sum>(a, b) \<leftarrow> ps. (cmod b)\<^sup>2)"
proof (induction ps)
  case Nil
  show ?case by simp
next
  case (Cons ab ps)
  obtain a b where ab: "ab = (a, b)" by (cases ab)
  define Cs where "Cs = (\<Sum>(a, b) \<leftarrow> ps. cnj a * b)"
  define A where "A = (\<Sum>(a, b) \<leftarrow> ps. (cmod a)\<^sup>2)"
  define B where "B = (\<Sum>(a, b) \<leftarrow> ps. (cmod b)\<^sup>2)"
  have A0: "0 \<le> A" unfolding A_def by (rule sum_list_nonneg) auto
  have B0: "0 \<le> B" unfolding B_def by (rule sum_list_nonneg) auto
  have ih: "(cmod Cs)\<^sup>2 \<le> A * B" using Cons.IH by (simp add: Cs_def A_def B_def)
  have "cmod (cnj a * b + Cs) \<le> cmod (cnj a * b) + cmod Cs" by (rule norm_triangle_ineq)
  also have "\<dots> = cmod Cs + cmod a * cmod b" by (simp add: norm_mult)
  finally have "(cmod (cnj a * b + Cs))\<^sup>2 \<le> (cmod Cs + cmod a * cmod b)\<^sup>2"
    by (intro power_mono) simp_all
  also have "\<dots> \<le> (A + (cmod a)\<^sup>2) * (B + (cmod b)\<^sup>2)"
    by (rule two_term_bound [OF _ A0 B0 _ _ ih]) simp_all
  finally show ?case
    by (simp add: ab Cs_def A_def B_def add.commute)
qed


lemma sum_list_scaleR_pairs:
  fixes g :: "'a \<Rightarrow> 'b \<Rightarrow> 'c::real_vector"
  shows "(\<Sum>(a, b) \<leftarrow> ps. c *\<^sub>R g a b) = c *\<^sub>R (\<Sum>(a, b) \<leftarrow> ps. g a b)"
  by (induction ps) (auto simp: scaleR_add_right)

lemma sum_list_mult_pairs:
  "(\<Sum>(a, b) \<leftarrow> ps. (c::real) * g a b) = c * (\<Sum>(a, b) \<leftarrow> ps. g a b)"
  by (induction ps) (auto simp: distrib_left)

lemma row_means_ok:
  assumes "row_triple_ok (rxx, ryy, rxy)"
  shows "\<exists>mx my mz. np_mean rxx = Inr mx \<and> np_mean ryy = Inr my \<and> np_mean rxy = Inr mz
           \<and> 0 \<le> mx \<and> 0 \<le> my \<and> (cmod mz)\<^sup>2 \<le> mx * my"
proof -
  from assms obtain c ps where c: "0 < c" and ne: "ps \<noteq> []"
    and xx: "rxx = map (\<lambda>(a, b). c * (cmod a)\<^sup>2) ps"
    and yy: "ryy = map (\<lambda>(a, b). c * (cmod b)\<^sup>2) ps"
    and xy: "rxy = map (\<lambda>(a, b). c *\<^sub>R (cnj a * b)) ps"
    by (auto simp: row_triple_ok_def)
  define n where "n = real (length ps)"
  have n: "0 < n" using ne by (simp add: n_def)
  define Cs where "Cs = (\<Sum>(a, b) \<leftarrow> ps. cnj a * b)"
  define A where "A = (\<Sum>(a, b) \<leftarrow> ps. (cmod a)\<^sup>2)"
  define B where "B = (\<Sum>(a, b) \<leftarrow> ps. (cmod b)\<^sup>2)"
  have A0: "0 \<le> A" unfolding A_def by (rule sum_list_nonneg) auto
  have B0: "0 \<le> B" unfolding B_def by (rule sum_list_nonneg) auto
  have cs: "(cmod Cs)\<^sup>2 \<le> A * B" unfolding Cs_def A_def B_def by (rule cross_sum_bound)
  have sx: "sum_list rxx = c * A"
    unfolding xx A_def by (rule sum_list_mult_pairs [of c "\<lambda>a b. (cmod a)\<^sup>2"])
  have sy: "sum_list ryy = c * B"
    unfolding yy B_def by (rule sum_list_mult_pairs [of c "\<lambda>a b. (cmod b)\<^sup>2"])
  have sz: "sum_list rxy = c *\<^sub>R Cs"
    unfolding xy Cs_def by (rule sum_list_scaleR_pairs [of c "\<lambda>a b. cnj a * b"])
  have lx: "length rxx = length ps" "length ryy = length ps" "length rxy = length ps"
    by (simp_all add: xx yy xy)
  have nex: "rxx \<noteq> []" "ryy \<noteq> []" "rxy \<noteq> []"
    using ne lx by auto
  have mx: "np_mean rxx = Inr (c * A / n)"
    using nex by (simp add: np_mean_def sx lx n_def divide_inverse mult.commute)
  have my: "np_mean ryy = Inr (c * B / n)"
    using nex by (simp add: np_mean_def sy lx n_def divide_inverse mult.commute)
  have mz: "np_mean rxy = Inr ((c / n) *\<^sub>R Cs)"
    using nex by (simp add: np_mean_def sz lx n_def divide_inverse mult.commute)
  have p1: "0 \<le> c * A / n" using c A0 n by simp
  have p2: "0 \<le> c * B / n" using c B0 n by simp
  have "(cmod ((c / n) *\<^sub>R Cs))\<^sup>2 = (c / n)\<^sup>2 * (cmod Cs)\<^sup>2"
    using c n by (simp add: power_mult_distrib power_divide)
  also have "\<dots> \<le> (c / n)\<^sup>2 * (A * B)"
    by (rule mult_left_mono [OF cs]) simp
  also have "\<dots> = (c * A / n) * (c * B / n)"
    by (simp add: power2_eq_square)
  finally have p3: "(cmod ((c / n) *\<^sub>R Cs))\<^sup>2 \<le> (c * A / n) * (c * B / n)" .
  from mx my mz p1 p2 p3 show ?thesis by blast
qed


lemma py_for_length: "py_for body ks = Inr ys \<Longrightarrow> length ys = length ks"
  by (induction ks arbitrary: ys) (auto split: sum.splits)

lemma np_mean_nonempty: "row \<noteq> [] \<Longrightarrow> np_mean row = Inr (sum_list row /\<^sub>R real (length row))"
  by (simp add: np_mean_def)

lemma row_triple_ok_nonempty:
  "row_triple_ok (rxx, ryy, rxy) \<Longrightarrow> rxx \<noteq> [] \<and> ryy \<noteq> [] \<and> rxy \<noteq> []"
  by (auto simp: row_triple_ok_def)

lemma arrays_ok_nth:
  assumes "arrays_ok A B C" "f < length A"
  shows "row_triple_ok (A ! f, B ! f, C ! f)"
proof -
  from assms have "f < length (zip A (zip B C))" by (simp add: arrays_ok_def)
  moreover from assms have "zip A (zip B C) ! f = (A ! f, B ! f, C ! f)"
    by (simp add: arrays_ok_def)
  ultimately show ?thesis
    using assms(1) by (metis arrays_ok_def list_all_length)
qed

lemma averaged_densities_ok:
  assumes ok: "arrays_ok (Pxx r) (Pyy r) (Pxy r)"
  shows "\<exists>pii pqq piq. averaged_densities r = Inr (pii, pqq, piq)
      \<and> length pii = length (Pxx r) \<and> length pqq = length (Pxx r) \<and> length piq = length (Pxx r)
      \<and> (\<forall>f < length (Pxx r). 0 \<le> pii ! f \<and> 0 \<le> pqq ! f \<and> (cmod (piq ! f))\<^sup>2 \<le> pii ! f * pqq ! f)"
proof -
  define mr where "mr = (\<lambda>row :: real list. sum_list row /\<^sub>R real (length row))"
  define mc where "mc = (\<lambda>row :: complex list. sum_list row /\<^sub>R real (length row))"
  have lens: "length (Pyy r) = length (Pxx r)" "length (Pxy r) = length (Pxx r)"
    using ok by (simp_all add: arrays_ok_def)
  have nx: "row \<noteq> []" if "row \<in> set (Pxx r)" for row
  proof -
    from that obtain f where "f < length (Pxx r)" "row = Pxx r ! f" by (auto simp: in_set_conv_nth)
    then show ?thesis using row_triple_ok_nonempty [OF arrays_ok_nth [OF ok]] by auto
  qed
  have ny: "row \<noteq> []" if "row \<in> set (Pyy r)" for row
  proof -
    from that obtain f where "f < length (Pxx r)" "row = Pyy r ! f"
      by (auto simp: in_set_conv_nth lens)
    then show ?thesis using row_triple_ok_nonempty [OF arrays_ok_nth [OF ok]] by auto
  qed
  have nz: "row \<noteq> []" if "row \<in> set (Pxy r)" for row
  proof -
    from that obtain f where "f < length (Pxx r)" "row = Pxy r ! f"
      by (auto simp: in_set_conv_nth lens)
    then show ?thesis using row_triple_ok_nonempty [OF arrays_ok_nth [OF ok]] by auto
  qed
  have px: "py_for np_mean (Pxx r) = Inr (map mr (Pxx r))"
    by (rule py_for_all_ok) (simp add: np_mean_nonempty nx mr_def)
  have py: "py_for np_mean (Pyy r) = Inr (map mr (Pyy r))"
    by (rule py_for_all_ok) (simp add: np_mean_nonempty ny mr_def)
  have pz: "py_for np_mean (Pxy r) = Inr (map mc (Pxy r))"
    by (rule py_for_all_ok) (simp add: np_mean_nonempty nz mc_def)
  have av: "averaged_densities r = Inr (map mr (Pxx r), map mr (Pyy r), map mc (Pxy r))"
    by (simp add: averaged_densities_def px py pz)
  have bnd: "0 \<le> map mr (Pxx r) ! f \<and> 0 \<le> map mr (Pyy r) ! f
        \<and> (cmod (map mc (Pxy r) ! f))\<^sup>2 \<le> map mr (Pxx r) ! f * map mr (Pyy r) ! f"
    if f: "f < length (Pxx r)" for f
  proof -
    have t: "row_triple_ok (Pxx r ! f, Pyy r ! f, Pxy r ! f)" by (rule arrays_ok_nth [OF ok f])
    have ne: "Pxx r ! f \<noteq> []" "Pyy r ! f \<noteq> []" "Pxy r ! f \<noteq> []"
      using row_triple_ok_nonempty [OF t] by simp_all
    from row_means_ok [OF t] show ?thesis
      using f lens ne by (auto simp: np_mean_nonempty mr_def mc_def)
  qed
  from av bnd lens show ?thesis by auto
qed


lemma length_scale_rows [simp]: "length (scale_rows wsum sf sbf Fs rows) = length rows"
  by (simp add: scale_rows_def div_all_def scale_inner_def Let_def)

lemma scale_rows_nth:
  fixes rows :: "('a::real_vector) list list"
  assumes "f < length rows"
  shows "scale_rows wsum sf sbf Fs rows ! f =
     map (\<lambda>v. ((if sbf then inverse Fs else 1)
                 * ((if 1 \<le> f \<and> f + 1 < length rows then sf else 1) * inverse wsum)) *\<^sub>R v)
         (rows ! f)"
  using assms by (simp add: scale_rows_def div_all_def scale_inner_def Let_def)

lemma cmod_sq_parts: "Re z * Re z + Im z * Im z = (cmod z)\<^sup>2"
  unfolding cmod_power2 by (simp add: power2_eq_square)

lemma length_recentre [simp]: "length (recentre h a) = length a"
  by (simp add: recentre_def)

lemma set_recentre [simp]: "set (recentre h a) = set a"
  unfolding recentre_def by (metis append_take_drop_id set_append sup_commute)

lemma scaled_rows_ok:
  assumes ne: "ffts \<noteq> []" and w: "0 < wsum" and sf: "0 < sf" and fs: "0 < Fs"
  shows "arrays_ok
     (scale_rows wsum sf sbf Fs
        (map (\<lambda>f. map (\<lambda>(fx, fy). Re (cnj (fx ! f) * fx ! f)) ffts) [0 ..< n]))
     (scale_rows wsum sf sbf Fs
        (map (\<lambda>f. map (\<lambda>(fx, fy). Re (cnj (fy ! f) * fy ! f)) ffts) [0 ..< n]))
     (scale_rows wsum sf sbf Fs
        (map (\<lambda>f. map (\<lambda>(fx, fy). cnj (fx ! f) * fy ! f) ffts) [0 ..< n]))"
    (is "arrays_ok ?A ?B ?C")
proof -
  have triple: "row_triple_ok (zip ?A (zip ?B ?C) ! f)" if f: "f < n" for f
  proof -
    define c where "c = (if sbf then inverse Fs else 1)
                 * ((if 1 \<le> f \<and> f + 1 < n then sf else 1) * inverse wsum)"
    define ps where "ps = map (\<lambda>(fx, fy). (fx ! f, fy ! f)) ffts"
    have c: "0 < c" using w sf fs by (simp add: c_def)
    have pne: "ps \<noteq> []" using ne by (simp add: ps_def)
    have a: "?A ! f = map (\<lambda>(a, b). c * (cmod a)\<^sup>2) ps"
      using f by (simp add: scale_rows_nth c_def ps_def comp_def case_prod_unfold cmod_sq_parts)
    have b: "?B ! f = map (\<lambda>(a, b). c * (cmod b)\<^sup>2) ps"
      using f by (simp add: scale_rows_nth c_def ps_def comp_def case_prod_unfold cmod_sq_parts)
    have cc: "?C ! f = map (\<lambda>(a, b). c *\<^sub>R (cnj a * b)) ps"
      using f by (simp add: scale_rows_nth c_def ps_def comp_def case_prod_unfold)
    have "zip ?A (zip ?B ?C) ! f = (?A ! f, ?B ! f, ?C ! f)" using f by simp
    then show ?thesis
      unfolding row_triple_ok_def using c pne a b cc by auto
  qed
  have "list_all row_triple_ok (zip ?A (zip ?B ?C))"
    unfolding list_all_length using triple by simp
  then show ?thesis by (simp add: arrays_ok_def)
qed

lemma arrays_ok_recentre:
  assumes "arrays_ok A B C"
  shows "arrays_ok (recentre h A) (recentre h B) (recentre h C)"
proof -
  from assms have l: "length A = length B" "length B = length C" by (simp_all add: arrays_ok_def)
  have z: "zip (recentre h A) (zip (recentre h B) (recentre h C)) = recentre h (zip A (zip B C))"
    using l by (simp add: recentre_def drop_zip take_zip)
  from assms l show ?thesis
    by (simp add: arrays_ok_def z list_all_iff)
qed


lemma py_for_returns:
  "(\<And>k. k \<in> set ks \<Longrightarrow> \<exists>y. body k = Inr y) \<Longrightarrow> \<exists>ys. py_for body ks = Inr ys"
proof (induction ks)
  case Nil
  show ?case by simp
next
  case (Cons k ks)
  from Cons.prems [of k] obtain y where y: "body k = Inr y" by auto
  from Cons.IH Cons.prems obtain ys where "py_for body ks = Inr ys" by auto
  with y show ?case by simp
qed

lemma segment_starts_ok:
  assumes "0 < step" "NFFT \<le> len"
  shows "\<exists>ind. segment_starts len NFFT step = Inr ind \<and> ind \<noteq> []
           \<and> (\<forall>s \<in> set ind. s + NFFT \<le> len)"
proof -
  define st where "st = nat step"
  have st: "0 < st" using assms(1) by (simp add: st_def)
  have "i * st + NFFT \<le> len" if "i < (len - NFFT) div st + 1" for i
  proof -
    from that have "i \<le> (len - NFFT) div st" by simp
    then have "i * st \<le> (len - NFFT) div st * st" by (rule mult_le_mono1)
    also have "\<dots> \<le> len - NFFT" by simp
    finally show ?thesis using assms(2) by simp
  qed
  then show ?thesis
    using assms(1) by (auto simp: segment_starts_def st_def)
qed

lemma np_fft_returns: "0 < n \<Longrightarrow> \<exists>r. np_fft a n = Inr r"
  by (simp add: np_fft_def Let_def)

lemma segment_fft_returns:
  assumes "length w = NFFT" "\<forall>seg. length (detrend seg) = length seg"
    "start + NFFT \<le> length sig" "0 < pad_to"
  shows "\<exists>fx. segment_fft detrend w NFFT pad_to sig start = Inr fx"
proof -
  have "length (detrend (take NFFT (drop start sig))) = NFFT"
    using assms(2,3) by simp
  then have "np_mul w (detrend (take NFFT (drop start sig)))
               = Inr (map2 (*) w (detrend (take NFFT (drop start sig))))"
    using assms(1) by (simp add: np_mul_def)
  then show ?thesis
    using np_fft_returns [OF assms(4)] by (simp add: segment_fft_def)
qed

lemma segment_pair_returns:
  assumes "length w = NFFT" "\<forall>seg. length (detrend seg) = length seg"
    "start + NFFT \<le> length x" "length y = length x" "0 < pad_to"
  shows "\<exists>p. segment_pair detrend w NFFT pad_to numFreqs x y start = Inr p"
proof -
  obtain fx where fx: "segment_fft detrend w NFFT pad_to x start = Inr fx"
    using segment_fft_returns [OF assms(1,2,3,5)] by blast
  obtain fy where fy: "segment_fft detrend w NFFT pad_to y start = Inr fy"
    using segment_fft_returns [OF assms(1,2) _ assms(5), of start y] assms(3,4) by auto
  show ?thesis by (simp add: segment_pair_def fx fy)
qed

lemma window_norm_pos:
  assumes "\<exists>v \<in> set w. v \<noteq> (0::real)"
  shows "0 < (\<Sum>v \<leftarrow> w. \<bar>v\<bar>\<^sup>2)"
proof -
  from assms obtain v where v: "v \<in> set w" "v \<noteq> 0" by blast
  have "0 < \<bar>v\<bar>\<^sup>2" using v(2) by simp
  also have "\<bar>v\<bar>\<^sup>2 \<le> (\<Sum>v \<leftarrow> w. \<bar>v\<bar>\<^sup>2)"
    using v(1) by (intro member_le_sum_list) auto
  finally show ?thesis .
qed

lemma spectral_core_ok:
  assumes len: "length y = length x" and long: "NFFT \<le> length x"
    and ov: "noverlap < int NFFT" and pad: "0 < pad_to" and fs: "0 < Fs" and sf: "0 < sf"
    and win: "window_values window NFFT = Inr w" "length w = NFFT" "\<exists>v \<in> set w. v \<noteq> 0"
    and det: "\<forall>seg. length (detrend seg) = length seg"
  shows "\<exists>res. spectral_core x y NFFT Fs detrend window noverlap pad_to sbf numFreqs sf two = Inr res
           \<and> arrays_ok (Pxx res) (Pyy res) (Pxy res)
           \<and> length (Pxx res) = numFreqs \<and> length (freqs res) = numFreqs"
proof -
  have step: "0 < int NFFT - noverlap" using ov by simp
  obtain ind where ind: "segment_starts (length x) NFFT (int NFFT - noverlap) = Inr ind"
    and ine: "ind \<noteq> []" and inr: "\<forall>s \<in> set ind. s + NFFT \<le> length x"
    using segment_starts_ok [OF step long] by blast
  obtain ffts where ffts: "py_for (segment_pair detrend w NFFT pad_to numFreqs x y) ind = Inr ffts"
    using py_for_returns [of ind "segment_pair detrend w NFFT pad_to numFreqs x y"]
      segment_pair_returns [OF win(2) det _ len pad] inr by blast
  have fne: "ffts \<noteq> []" using py_for_length [OF ffts] ine by auto
  have wpos: "0 < (\<Sum>v \<leftarrow> w. \<bar>v\<bar>\<^sup>2)" by (rule window_norm_pos [OF win(3)])
  note ok = scaled_rows_ok [OF fne wpos sf fs, of sbf numFreqs]
  have h: "min (numFreqs - numFreqs div 2) numFreqs + min (numFreqs div 2) numFreqs = numFreqs"
    by simp
  show ?thesis
  proof (cases two)
    case True
    then show ?thesis
      using win(1) ind ffts fs pad wpos arrays_ok_recentre [OF ok] 
      by (simp add: spectral_core_def Let_def h)
  next
    case False
    then show ?thesis
      using win(1) ind ffts fs pad wpos ok
      by (simp add: spectral_core_def Let_def)
  qed
qed


text \<open>
  C2. For two real signals of equal length and a valid configuration (overlap below the
  segment length, a nonzero padding length, a positive sample rate, a known sides option,
  a window of NFFT values that are not all zero, a length-preserving detrend), the
  estimator returns, the averaged auto-densities are real and non-negative at every
  output frequency, and the averaged densities satisfy |S_AB(f)|^2 <= S_AA(f) * S_BB(f)
  at every output frequency.
\<close>

theorem spectral_densities_valid:
  "length y = length x \<Longrightarrow> noverlap < int NFFT \<Longrightarrow> pad_to \<noteq> Some 0 \<Longrightarrow> 0 < Fs \<Longrightarrow>
   sides = ''default'' \<or> sides = ''onesided'' \<or> sides = ''twosided'' \<Longrightarrow>
   window_values window NFFT = Inr w \<Longrightarrow> length w = NFFT \<Longrightarrow> \<exists>v \<in> set w. v \<noteq> 0 \<Longrightarrow>
   \<forall>seg. length (detrend seg) = length seg \<Longrightarrow>
   (\<exists>res pii pqq piq.
      full_spectral_helper x y NFFT Fs detrend window noverlap pad_to sides scale_by_freq = Inr res
      \<and> averaged_densities res = Inr (pii, pqq, piq)
      \<and> length pii = length (freqs res) \<and> length pqq = length (freqs res)
      \<and> length piq = length (freqs res)
      \<and> (\<forall>f < length (freqs res).
            0 \<le> pii ! f \<and> 0 \<le> pqq ! f \<and> (cmod (piq ! f))\<^sup>2 \<le> pii ! f * pqq ! f))"
proof -
  assume len: "length y = length x" and ov: "noverlap < int NFFT" and pad: "pad_to \<noteq> Some 0"
    and fs: "0 < Fs"
    and sides: "sides = ''default'' \<or> sides = ''onesided'' \<or> sides = ''twosided''"
    and win: "window_values window NFFT = Inr w" "length w = NFFT" "\<exists>v \<in> set w. v \<noteq> 0"
    and det: "\<forall>seg. length (detrend seg) = length seg"
  from win(2,3) have nfft: "0 < NFFT" by (cases w) auto
  define x' where "x' = (if length x < NFFT then x @ replicate (NFFT - length x) 0 else x)"
  define y' where "y' = (if length y < NFFT then y @ replicate (NFFT - length y) 0 else y)"
  define p where "p = (case pad_to of None \<Rightarrow> NFFT | Some q \<Rightarrow> q)"
  define sbf where "sbf = (case scale_by_freq of None \<Rightarrow> True | Some b \<Rightarrow> b)"
  have len': "length y' = length x'" using len by (simp add: x'_def y'_def)
  have long: "NFFT \<le> length x'" by (simp add: x'_def)
  have ppos: "0 < p" using pad nfft by (cases pad_to) (simp_all add: p_def)
  have "\<exists>res. full_spectral_helper x y NFFT Fs detrend window noverlap pad_to sides scale_by_freq
                = Inr res
           \<and> arrays_ok (Pxx res) (Pyy res) (Pxy res) \<and> length (Pxx res) = length (freqs res)"
  proof (cases "sides = ''twosided''")
    case True
    obtain res where
      "spectral_core x' y' NFFT Fs detrend window noverlap p sbf p 1 True = Inr res"
      "arrays_ok (Pxx res) (Pyy res) (Pxy res)" "length (Pxx res) = p" "length (freqs res) = p"
      using spectral_core_ok [OF len' long ov ppos fs _ win det, of 1 sbf p True] by auto
    then show ?thesis
      using True by (auto simp: full_spectral_helper_def Let_def x'_def [symmetric]
          y'_def [symmetric] p_def [symmetric] sbf_def [symmetric])
  next
    case False
    with sides have one: "sides = ''default'' \<or> sides = ''onesided''" by simp
    obtain res where
      "spectral_core x' y' NFFT Fs detrend window noverlap p sbf (p div 2 + 1) 2 False = Inr res"
      "arrays_ok (Pxx res) (Pyy res) (Pxy res)" "length (Pxx res) = p div 2 + 1"
      "length (freqs res) = p div 2 + 1"
      using spectral_core_ok [OF len' long ov ppos fs _ win det, of 2 sbf "p div 2 + 1" False]
      by auto
    then show ?thesis
      using False one by (auto simp: full_spectral_helper_def Let_def x'_def [symmetric]
          y'_def [symmetric] p_def [symmetric] sbf_def [symmetric])
  qed
  then obtain res where
    r: "full_spectral_helper x y NFFT Fs detrend window noverlap pad_to sides scale_by_freq = Inr res"
    and ok: "arrays_ok (Pxx res) (Pyy res) (Pxy res)"
    and lf: "length (Pxx res) = length (freqs res)"
    by blast
  from averaged_densities_ok [OF ok] r lf show ?thesis by auto
qed

lemma twiddle_quarter:
  "exp (- 2 * of_real pi * \<i> * of_nat k * of_nat j / of_nat 4) = (- \<i>) ^ (k * j)"
proof -
  have "exp (\<i> * of_real (pi / 2)) = \<i>"
    using cis_conv_exp [of "pi / 2"] by (simp add: cis_pi_half)
  then have q: "exp (- (\<i> * of_real (pi / 2))) = - \<i>"
    by (simp add: exp_minus)
  have "- 2 * of_real pi * \<i> * of_nat k * of_nat j / of_nat 4
          = of_nat (k * j) * (- (\<i> * complex_of_real (pi / 2)))"
    by simp
  then have "exp (- 2 * of_real pi * \<i> * of_nat k * of_nat j / of_nat 4)
          = exp (- (\<i> * complex_of_real (pi / 2))) ^ (k * j)"
    by (simp only: exp_of_nat_mult)
  then show ?thesis by (simp only: q)
qed

lemma np_fft_pair_to_four:
  "np_fft [a, b] 4 = Inr [a + b, a - \<i> * b, a - b, a + \<i> * b]"
proof -
  have u: "[0 ..< 4] = [0, 1, 2, 3]" by (simp add: upt_rec)
  have s: "{..< 4 :: nat} = {0, 1, 2, 3}" by auto
  have t: "take 4 [a, b] @ replicate (4 - length [a, b]) 0 = [a, b, 0, 0]"
    by (simp add: numeral_eq_Suc)
  show ?thesis
    unfolding np_fft_def Let_def t twiddle_quarter u s
    by (simp add: numeral_eq_Suc)
qed


lemma helper_overlap_example:
  "full_spectral_helper [1, 2, 3, 1] [2, 1, 1, 1] 2 2 (\<lambda>seg. seg) (WindowValues [1, 2]) 1
       (Some 4) ''default'' None
     = Inr \<lparr>Pxx = [[5 / 2, 32 / 5, 5 / 2], [17 / 5, 8, 13 / 5], [9 / 10, 8 / 5, 1 / 10]],
            Pyy = [[8 / 5, 9 / 10, 9 / 10], [8 / 5, 1, 1], [0, 1 / 10, 1 / 10]],
            Pxy = [[2, 12 / 5, 3 / 2],
                   [2 + 6 / 5 * \<i>, 14 / 5 + 2 / 5 * \<i>, 7 / 5 - 4 / 5 * \<i>],
                   [0, 2 / 5, - (1 / 10)]],
            freqs = [0, 1 / 2, 1], t_out = [1 / 2, 1, 3 / 2]\<rparr>"
proof -
  have ind: "segment_starts (length [1, 2, 3, 1 :: real]) 2 (int 2 - 1) = Inr [0, 1, 2]"
    by (simp add: segment_starts_def upt_rec)
  have fx0: "segment_fft (\<lambda>seg. seg) [1, 2] 2 4 [1, 2, 3, 1] 0
               = Inr [5, 1 - 4 * \<i>, - 3, 1 + 4 * \<i>]"
    by (simp add: segment_fft_def np_mul_def np_fft_pair_to_four complex_eq_iff)
  have fx1: "segment_fft (\<lambda>seg. seg) [1, 2] 2 4 [1, 2, 3, 1] 1
               = Inr [8, 2 - 6 * \<i>, - 4, 2 + 6 * \<i>]"
    by (simp add: segment_fft_def np_mul_def np_fft_pair_to_four complex_eq_iff)
  have fx2: "segment_fft (\<lambda>seg. seg) [1, 2] 2 4 [1, 2, 3, 1] 2
               = Inr [5, 3 - 2 * \<i>, 1, 3 + 2 * \<i>]"
    by (simp add: segment_fft_def np_mul_def np_fft_pair_to_four complex_eq_iff)
  have fy0: "segment_fft (\<lambda>seg. seg) [1, 2] 2 4 [2, 1, 1, 1] 0
               = Inr [4, 2 - 2 * \<i>, 0, 2 + 2 * \<i>]"
    by (simp add: segment_fft_def np_mul_def np_fft_pair_to_four complex_eq_iff)
  have fy1: "segment_fft (\<lambda>seg. seg) [1, 2] 2 4 [2, 1, 1, 1] 1
               = Inr [3, 1 - 2 * \<i>, - 1, 1 + 2 * \<i>]"
    by (simp add: segment_fft_def np_mul_def np_fft_pair_to_four complex_eq_iff)
  have fy2: "segment_fft (\<lambda>seg. seg) [1, 2] 2 4 [2, 1, 1, 1] 2
               = Inr [3, 1 - 2 * \<i>, - 1, 1 + 2 * \<i>]"
    by (simp add: segment_fft_def np_mul_def np_fft_pair_to_four complex_eq_iff)
  have p0: "segment_pair (\<lambda>seg. seg) [1, 2] 2 4 3 [1, 2, 3, 1] [2, 1, 1, 1] 0
              = Inr ([5, 1 - 4 * \<i>, - 3], [4, 2 - 2 * \<i>, 0])"
    unfolding segment_pair_def fx0 fy0 by simp
  have p1: "segment_pair (\<lambda>seg. seg) [1, 2] 2 4 3 [1, 2, 3, 1] [2, 1, 1, 1] 1
              = Inr ([8, 2 - 6 * \<i>, - 4], [3, 1 - 2 * \<i>, - 1])"
    unfolding segment_pair_def fx1 fy1 by simp
  have p2: "segment_pair (\<lambda>seg. seg) [1, 2] 2 4 3 [1, 2, 3, 1] [2, 1, 1, 1] 2
              = Inr ([5, 3 - 2 * \<i>, 1], [3, 1 - 2 * \<i>, - 1])"
    unfolding segment_pair_def fx2 fy2 by simp
  have loop: "py_for (segment_pair (\<lambda>seg. seg) [1, 2] 2 4 3 [1, 2, 3, 1] [2, 1, 1, 1]) [0, 1, 2]
      = Inr [([5, 1 - 4 * \<i>, - 3], [4, 2 - 2 * \<i>, 0]),
             ([8, 2 - 6 * \<i>, - 4], [3, 1 - 2 * \<i>, - 1]),
             ([5, 3 - 2 * \<i>, 1], [3, 1 - 2 * \<i>, - 1])]"
    by (simp only: py_for.simps p0 p1 p2 sum.case)
  have u: "[0 ..< 3] = [0, 1, 2]" by (simp add: upt_rec)
  have wv: "window_values (WindowValues [1, 2]) 2 = Inr [1, 2]"
    by (simp add: window_values_def)
  have pre: "full_spectral_helper [1, 2, 3, 1] [2, 1, 1, 1] 2 2 (\<lambda>seg. seg) (WindowValues [1, 2]) 1
       (Some 4) ''default'' None
     = spectral_core [1, 2, 3, 1] [2, 1, 1, 1] 2 2 (\<lambda>seg. seg) (WindowValues [1, 2]) 1 4 True 3 2 False"
    by (simp add: full_spectral_helper_def)
  show ?thesis
    unfolding pre spectral_core_def Let_def wv sum.case ind loop
    by (simp add: u scale_rows_def div_all_def scale_inner_def complex_eq_iff)
qed


theorem spectral_densities_valid_witness:
  "\<exists>res pii pqq piq.
      full_spectral_helper [1, 2, 3, 1] [2, 1, 1, 1] 2 2 (\<lambda>seg. seg) (WindowValues [1, 2]) 1
          (Some 4) ''default'' None = Inr res
      \<and> averaged_densities res = Inr (pii, pqq, piq)
      \<and> length (t_out res) = 3 \<and> freqs res = [0, 1 / 2, 1]
      \<and> pii = [19 / 5, 14 / 3, 13 / 15] \<and> pqq = [17 / 15, 6 / 5, 1 / 15]
      \<and> piq = [59 / 30, 31 / 15 + 4 / 15 * \<i>, 1 / 10]
      \<and> 0 \<le> pii ! 0 \<and> 0 \<le> pqq ! 0 \<and> (cmod (piq ! 0))\<^sup>2 \<le> pii ! 0 * pqq ! 0
      \<and> 0 \<le> pii ! 1 \<and> 0 \<le> pqq ! 1 \<and> (cmod (piq ! 1))\<^sup>2 \<le> pii ! 1 * pqq ! 1
      \<and> 0 \<le> pii ! 2 \<and> 0 \<le> pqq ! 2 \<and> (cmod (piq ! 2))\<^sup>2 \<le> pii ! 2 * pqq ! 2"
proof -
  have h: "length [2, 1, 1, 1 :: real] = length [1, 2, 3, 1 :: real]" "(1::int) < int 2"
    "Some (4::nat) \<noteq> Some 0" "(0::real) < 2"
    "''default'' = ''default'' \<or> ''default'' = ''onesided'' \<or> ''default'' = ''twosided''"
    "window_values (WindowValues [1, 2]) 2 = Inr [1, 2]" "length [1, 2 :: real] = 2"
    "\<exists>v \<in> set [1, 2 :: real]. v \<noteq> 0" "\<forall>seg :: real list. length ((\<lambda>seg. seg) seg) = length seg"
    by (simp_all add: window_values_def)
  from spectral_densities_valid [OF h, of None]
  obtain res pii pqq piq where
    r: "full_spectral_helper [1, 2, 3, 1] [2, 1, 1, 1] 2 2 (\<lambda>seg. seg) (WindowValues [1, 2]) 1
          (Some 4) ''default'' None = Inr res"
    and a: "averaged_densities res = Inr (pii, pqq, piq)"
    and b: "\<forall>f < length (freqs res).
            0 \<le> pii ! f \<and> 0 \<le> pqq ! f \<and> (cmod (piq ! f))\<^sup>2 \<le> pii ! f * pqq ! f"
    by blast
  from r [unfolded helper_overlap_example]
  have res: "res = \<lparr>Pxx = [[5 / 2, 32 / 5, 5 / 2], [17 / 5, 8, 13 / 5], [9 / 10, 8 / 5, 1 / 10]],
            Pyy = [[8 / 5, 9 / 10, 9 / 10], [8 / 5, 1, 1], [0, 1 / 10, 1 / 10]],
            Pxy = [[2, 12 / 5, 3 / 2],
                   [2 + 6 / 5 * \<i>, 14 / 5 + 2 / 5 * \<i>, 7 / 5 - 4 / 5 * \<i>],
                   [0, 2 / 5, - (1 / 10)]],
            freqs = [0, 1 / 2, 1], t_out = [1 / 2, 1, 3 / 2]\<rparr>"
    by simp
  from a have v: "pii = [19 / 5, 14 / 3, 13 / 15]" "pqq = [17 / 15, 6 / 5, 1 / 15]"
    "piq = [59 / 30, 31 / 15 + 4 / 15 * \<i>, 1 / 10]"
    by (auto simp: res averaged_densities_def np_mean_def scaleR_conv_of_real complex_eq_iff)
  have fr: "length (t_out res) = 3" "freqs res = [0, 1 / 2, 1]" by (simp_all add: res)
  have l: "length (freqs res) = 3" by (simp add: res)
  from b l have b0: "0 \<le> pii ! 0 \<and> 0 \<le> pqq ! 0 \<and> (cmod (piq ! 0))\<^sup>2 \<le> pii ! 0 * pqq ! 0"
    and b1: "0 \<le> pii ! 1 \<and> 0 \<le> pqq ! 1 \<and> (cmod (piq ! 1))\<^sup>2 \<le> pii ! 1 * pqq ! 1"
    and b2: "0 \<le> pii ! 2 \<and> 0 \<le> pqq ! 2 \<and> (cmod (piq ! 2))\<^sup>2 \<le> pii ! 2 * pqq ! 2"
    by simp_all
  from r a fr v b0 b1 b2 show ?thesis by blast
qed

end
